theory Spec2Isabelle
  imports Complex_Main
begin

section \<open>Citation markers\<close>

text \<open>
  The answer text is scanned with the global regular expression \<^verbatim>\<open>/\[(\d+)\]/g\<close>: an opening
  bracket, one or more ASCII digits, a closing bracket. Text is a list of characters. The
  numbers read by \<^verbatim>\<open>parseInt\<close> are natural numbers: the pattern admits no sign, and the
  rounding of a digit string beyond \<open>2^53\<close> to the nearest floating point number is not
  modelled.
\<close>

definition is_digit :: "char \<Rightarrow> bool" where
  "is_digit c = (c \<in> set ''0123456789'')"

definition digit_val :: "char \<Rightarrow> nat" where
  "digit_val c = of_char c - 48"

definition digit_char :: "nat \<Rightarrow> char" where
  "digit_char n = ''0123456789'' ! n"

definition parseInt :: "string \<Rightarrow> nat" where
  "parseInt ds = foldl (\<lambda>acc c. 10 * acc + digit_val c) 0 ds"

text \<open>A number written into a template literal: its decimal digits.\<close>

fun render :: "nat \<Rightarrow> string" where
  "render n = (if n < 10 then [digit_char n] else render (n div 10) @ [digit_char (n mod 10)])"

declare render.simps [simp del]

text \<open>
  A scan splits the text into the matches, each with its captured digits, and the single
  characters between them. A match starts at the leftmost opening bracket that is followed by
  a non-empty maximal run of digits and a closing bracket; scanning goes on behind the match.
  Both the \<^verbatim>\<open>exec\<close> loops and \<^verbatim>\<open>String.prototype.replace\<close> walk the text in this way.
\<close>

datatype token = Lit char | Marker string

definition bracketed :: "string \<Rightarrow> string" where
  "bracketed ds = ''['' @ ds @ '']''"

text \<open>The text a token stands for: a character outside any match, or a whole match with its
  captured digits.\<close>

fun token_text :: "token \<Rightarrow> string" where
  "token_text (Lit c) = [c]"
| "token_text (Marker ds) = bracketed ds"

text \<open>A match at the start of the text: the captured digits and the text behind the match.\<close>

fun match_here :: "string \<Rightarrow> (string \<times> string) option" where
  "match_here [] = None"
| "match_here (c # cs) =
     (if c = CHR ''[''
      then (case dropWhile is_digit cs of
              [] \<Rightarrow> None
            | d # rest \<Rightarrow>
                if takeWhile is_digit cs \<noteq> [] \<and> d = CHR '']''
                then Some (takeWhile is_digit cs, rest) else None)
      else None)"

lemma match_here_shorter:
  "match_here s = Some (ds, rest) \<Longrightarrow> length rest < length s"
proof (cases s)
  case Nil
  assume "match_here s = Some (ds, rest)"
  with Nil show ?thesis by simp
next
  case (Cons c cs)
  assume m: "match_here s = Some (ds, rest)"
  from m Cons obtain d where "dropWhile is_digit cs = d # rest"
    by (auto split: if_splits list.splits)
  then have "length (d # rest) \<le> length cs"
    by (metis length_dropWhile_le)
  with Cons show ?thesis by simp
qed

function scan :: "string \<Rightarrow> token list" where
  "scan [] = []"
| "scan (c # cs) =
     (case match_here (c # cs) of
        Some (ds, rest) \<Rightarrow> Marker ds # scan rest
      | None \<Rightarrow> Lit c # scan cs)"
  by pat_completeness auto
termination
  by (relation "measure length") (auto simp del: match_here.simps dest: match_here_shorter)

text \<open>The capture group of a match; the \<^verbatim>\<open>exec\<close> loop collects the captures of all matches,
  left to right.\<close>

fun capture :: "token \<Rightarrow> string list" where
  "capture (Lit c) = []"
| "capture (Marker ds) = [ds]"

definition markers :: "string \<Rightarrow> string list" where
  "markers answer = concat (map capture (scan answer))"

text \<open>\<^verbatim>\<open>answer.replace(citationPattern, f)\<close>: every match is replaced by what the callback
  returns for its captured digits.\<close>

definition replace_markers :: "(string \<Rightarrow> string) \<Rightarrow> string \<Rightarrow> string" where
  "replace_markers f answer =
     concat (map (\<lambda>t. case t of Lit c \<Rightarrow> [c] | Marker ds \<Rightarrow> f ds) (scan answer))"

section \<open>Documents, citations and query results\<close>

record metadata =
  title :: "string option"
  url :: "string option"

record document =
  content :: string
  metadata :: metadata

text \<open>A retrieved document carries its similarity score (\<open>None\<close> stands for NaN) and the
  1-based number under which it is shown to the generator.\<close>

record retrieved_doc = document +
  score :: "real option"
  sourceId :: nat

record citation = document +
  source_id :: nat

datatype error = TypeError | Error string

text \<open>Reading \<^verbatim>\<open>xs[i]\<close>: an index outside the array gives \<^verbatim>\<open>undefined\<close>.\<close>

definition array_get :: "'a list \<Rightarrow> int \<Rightarrow> 'a option" where
  "array_get xs i = (if 0 \<le> i \<and> i < int (length xs) then Some (xs ! nat i) else None)"

text \<open>Writing \<^verbatim>\<open>xs[i] = v\<close> on an array with holes: an index past the end extends the array
  with holes, a negative index creates an ordinary property and leaves the elements alone.\<close>

definition array_set :: "'a option list \<Rightarrow> int \<Rightarrow> 'a \<Rightarrow> 'a option list" where
  "array_set arr i v =
     (if i < 0 then arr
      else if nat i < length arr then arr[nat i := Some v]
      else arr @ replicate (nat i - length arr) None @ [Some v])"

subsection \<open>extractCitations\<close>

text \<open>\<^verbatim>\<open>Set.add\<close>: a set keeps one copy of each number, in insertion order.\<close>

definition set_add :: "nat \<Rightarrow> nat list \<Rightarrow> nat list" where
  "set_add x s = (if x \<in> set s then s else s @ [x])"

text \<open>The \<^verbatim>\<open>forEach\<close> over the sorted numbers. The only guard is
  \<^verbatim>\<open>sourceNum <= retrievedDocs.length\<close>; reading \<^verbatim>\<open>.content\<close> of an undefined
  document throws a TypeError, which ends the loop.\<close>

fun push_citations :: "retrieved_doc list \<Rightarrow> nat list \<Rightarrow> citation list \<Rightarrow> error + citation list" where
  "push_citations retrievedDocs [] acc = Inr acc"
| "push_citations retrievedDocs (sourceNum # rest) acc =
     (if sourceNum \<le> length retrievedDocs
      then (case array_get retrievedDocs (int sourceNum - 1) of
              None \<Rightarrow> Inl TypeError
            | Some doc \<Rightarrow>
                push_citations retrievedDocs rest
                  (acc @ [\<lparr>content = content doc, metadata = metadata doc, source_id = sourceNum\<rparr>]))
      else push_citations retrievedDocs rest acc)"

definition extractCitations :: "string \<Rightarrow> retrieved_doc list \<Rightarrow> error + citation list" where
  "extractCitations answer retrievedDocs =
     (let citedSources = fold set_add (map parseInt (markers answer)) []
      in push_citations retrievedDocs (sort citedSources) [])"

subsection \<open>renumberCitations\<close>

text \<open>The object \<^verbatim>\<open>oldToNew\<close> is an association list in insertion order, with the counter
  \<^verbatim>\<open>newCounter\<close> beside it.\<close>

definition assign :: "nat \<Rightarrow> (nat \<times> nat) list \<times> nat \<Rightarrow> (nat \<times> nat) list \<times> nat" where
  "assign oldNum st =
     (case st of (oldToNew, newCounter) \<Rightarrow>
        if map_of oldToNew oldNum = None
        then (oldToNew @ [(oldNum, newCounter)], newCounter + 1)
        else (oldToNew, newCounter))"

text \<open>The replacement callback: \<^verbatim>\<open>`[${oldToNew[num] || num}]`\<close>. A missing key and the
  value 0 both fall back to the old number.\<close>

definition new_number :: "(nat \<times> nat) list \<Rightarrow> nat \<Rightarrow> nat" where
  "new_number oldToNew num =
     (case map_of oldToNew num of None \<Rightarrow> num | Some v \<Rightarrow> if v = 0 then num else v)"

definition new_marker :: "(nat \<times> nat) list \<Rightarrow> string \<Rightarrow> string" where
  "new_marker oldToNew oldNum = bracketed (render (new_number oldToNew (parseInt oldNum)))"

text \<open>The result is the pair of \<^verbatim>\<open>renumberedAnswer\<close> and \<^verbatim>\<open>mapping\<close>.\<close>

definition renumberCitations :: "string \<Rightarrow> string \<times> (nat \<times> nat) list" where
  "renumberCitations answer =
     (let citationsFound = map parseInt (markers answer);
          oldToNew = fst (fold assign citationsFound ([], 1))
      in (replace_markers (new_marker oldToNew) answer, oldToNew))"

subsection \<open>reorderCitations\<close>

text \<open>The array \<^verbatim>\<open>newCitations\<close> starts as \<^verbatim>\<open>new Array(n)\<close>, all holes, \<open>n\<close> the number of keys
  of the map. For each citation whose old number is a key, the citation with its number
  rewritten is stored at index \<^verbatim>\<open>newId - 1\<close>.\<close>

definition place :: "(nat \<times> nat) list \<Rightarrow> citation \<Rightarrow> citation option list \<Rightarrow> citation option list" where
  "place mapping citation newCitations =
     (case map_of mapping (source_id citation) of
        None \<Rightarrow> newCitations
      | Some newId \<Rightarrow> array_set newCitations (int newId - 1) (citation\<lparr>source_id := newId\<rparr>))"

text \<open>\<^verbatim>\<open>filter(c => c !== undefined)\<close>: the elements that are present, in index order.\<close>

definition defined_elems :: "'a option list \<Rightarrow> 'a list" where
  "defined_elems arr = concat (map (\<lambda>c. case c of None \<Rightarrow> [] | Some x \<Rightarrow> [x]) arr)"

definition reorderCitations :: "citation list \<Rightarrow> (nat \<times> nat) list \<Rightarrow> citation list" where
  "reorderCitations citations mapping =
     (let newCitations = fold (place mapping) citations
                           (replicate (length (remdups (map fst mapping))) None)
      in defined_elems newCitations)"

subsection \<open>The post-processing of generateAnswerWithCitations\<close>

record query_result =
  answer :: string
  citations :: "citation list"
  rawAnswer :: string

text \<open>The chat-completion request is an external call; its outcome is a parameter: a failed
  request with the provider's message, if any, or the generated text.\<close>

datatype api_response = ApiFailed "string option" | ApiOk string

definition generateAnswerWithCitations :: "api_response \<Rightarrow> retrieved_doc list \<Rightarrow> error + query_result" where
  "generateAnswerWithCitations response retrievedDocs =
     (case response of
        ApiFailed msg \<Rightarrow>
          Inl (Error (case msg of
                        None \<Rightarrow> ''OpenAI API request failed''
                      | Some m \<Rightarrow> if m = [] then ''OpenAI API request failed'' else m))
      | ApiOk reply \<Rightarrow>
          (case extractCitations reply retrievedDocs of
             Inl e \<Rightarrow> Inl e
           | Inr extracted \<Rightarrow>
               (case renumberCitations reply of
                  (renumberedAnswer, mapping) \<Rightarrow>
                    Inr \<lparr>answer = renumberedAnswer,
                         citations = reorderCitations extracted mapping,
                         rawAnswer = reply\<rparr>)))"

section \<open>Retrieval\<close>

text \<open>
  The cached corpus of an event. Numbers are real numbers: the rounding of floating point
  arithmetic is not modelled, and \<open>None\<close> stands for NaN.
\<close>

record corpus =
  eventId :: string
  documents :: "document list"
  embeddings :: "real list list"

text \<open>The loop runs over the indices of \<^verbatim>\<open>vecA\<close>; reading past the end of \<^verbatim>\<open>vecB\<close> gives
  \<^verbatim>\<open>undefined\<close> and makes every sum NaN, and so does the division of zero by zero.\<close>

definition cosineSimilarity :: "real list \<Rightarrow> real list \<Rightarrow> real option" where
  "cosineSimilarity vecA vecB =
     (if length vecB < length vecA then None
      else (case fold (\<lambda>i (dotProduct, normA, normB).
                         (dotProduct + vecA ! i * vecB ! i,
                          normA + vecA ! i * vecA ! i,
                          normB + vecB ! i * vecB ! i))
                  [0..<length vecA] (0, 0, 0) of
              (dotProduct, normA, normB) \<Rightarrow>
                if sqrt normA * sqrt normB = 0 then None
                else Some (dotProduct / (sqrt normA * sqrt normB))))"

text \<open>The comparator \<^verbatim>\<open>(a, b) => b.score - a.score\<close> on pairs of score and index. A
  comparator result NaN counts as 0 for \<^verbatim>\<open>Array.prototype.sort\<close>.\<close>

definition descending :: "real option \<times> nat \<Rightarrow> real option \<times> nat \<Rightarrow> real" where
  "descending a b = (case (fst a, fst b) of (Some x, Some y) \<Rightarrow> y - x | _ \<Rightarrow> 0)"

text \<open>\<^verbatim>\<open>Array.prototype.sort\<close> is stable. With a comparator that is a consistent ordering, the
  result does not depend on the algorithm; insertion from the right is one stable sort.\<close>

fun insert_by :: "('a \<Rightarrow> 'a \<Rightarrow> real) \<Rightarrow> 'a \<Rightarrow> 'a list \<Rightarrow> 'a list" where
  "insert_by cmp x [] = [x]"
| "insert_by cmp x (y # ys) = (if cmp x y \<le> 0 then x # y # ys else y # insert_by cmp x ys)"

fun sort_by :: "('a \<Rightarrow> 'a \<Rightarrow> real) \<Rightarrow> 'a list \<Rightarrow> 'a list" where
  "sort_by cmp [] = []"
| "sort_by cmp (x # xs) = insert_by cmp x (sort_by cmp xs)"

text \<open>\<^verbatim>\<open>topIndices\<close>: the indices of the first \<^verbatim>\<open>topK\<close> entries, \<^verbatim>\<open>topK\<close> a count.\<close>

definition top_indices :: "real option list \<Rightarrow> nat \<Rightarrow> nat list" where
  "top_indices scores topK =
     (let indexedScores = zip scores [0..<length scores]
      in map snd (take topK (sort_by descending indexedScores)))"

text \<open>The final \<^verbatim>\<open>map\<close> over \<^verbatim>\<open>topIndices\<close>; reading \<^verbatim>\<open>.content\<close> of a missing document
  throws.\<close>

fun top_documents :: "document list \<Rightarrow> real option list \<Rightarrow> nat list \<Rightarrow> nat \<Rightarrow> error + retrieved_doc list" where
  "top_documents docs scores [] rank = Inr []"
| "top_documents docs scores (idx # rest) rank =
     (case array_get docs (int idx) of
        None \<Rightarrow> Inl TypeError
      | Some d \<Rightarrow>
          (case top_documents docs scores rest (rank + 1) of
             Inl e \<Rightarrow> Inl e
           | Inr found \<Rightarrow>
               Inr (\<lparr>content = content d, metadata = metadata d,
                     score = scores ! idx, sourceId = rank + 1\<rparr> # found)))"

definition similarities :: "real list \<Rightarrow> corpus \<Rightarrow> real option list" where
  "similarities queryEmbedding embeddingsData =
     map (\<lambda>docEmbedding. cosineSimilarity queryEmbedding docEmbedding) (embeddings embeddingsData)"

text \<open>The embedding model is a parameter: a function from the query text to its vector.\<close>

definition retrieveDocuments :: "(string \<Rightarrow> real list) \<Rightarrow> string \<Rightarrow> corpus \<Rightarrow> nat \<Rightarrow> error + retrieved_doc list" where
  "retrieveDocuments embedder query embeddingsData topK =
     (let queryEmbedding = embedder query;
          scores = similarities queryEmbedding embeddingsData;
          topIndices = top_indices scores topK
      in top_documents (documents embeddingsData) scores topIndices 0)"

section \<open>The query panel and the event selector\<close>

text \<open>
  The page keeps the module-level variables \<^verbatim>\<open>embedder\<close>, \<^verbatim>\<open>embeddingsData\<close>,
  \<^verbatim>\<open>currentEventId\<close> and \<^verbatim>\<open>currentData\<close>, the two input fields, the status line and the
  displayed result. One further field, \<open>calls\<close>, records the external calls in order. A
  handler is given as the page it leaves behind when it runs from its start to its end with
  no other handler running in between; the handlers are asynchronous, and what happens when
  another handler runs while one is suspended at an \<^verbatim>\<open>await\<close> is not described here.
\<close>

datatype call =
    LoadModel
  | LoadEmbeddings string
  | Embed string
  | Generate string "retrieved_doc list"
  | FetchEvent string

datatype status = Blank | Warning string | Info string | Failure error | Success

text \<open>The event data drawn as a graph is opaque here.\<close>

datatype graph = Graph string

text \<open>The outside world: loading the embedding model, fetching an event's embeddings file,
  the chat-completion request (for an API key, a query and the retrieved documents, from
  which the prompt is built), fetching an event's data file and drawing it. Each may fail.\<close>

record world =
  load_model :: "error + (string \<Rightarrow> real list)"
  fetch_embeddings :: "string \<Rightarrow> error + document list \<times> real list list"
  chat_completion :: "string \<Rightarrow> string \<Rightarrow> retrieved_doc list \<Rightarrow> api_response"
  fetch_event :: "string \<Rightarrow> error + graph"
  draw_graph :: "graph \<Rightarrow> error option"

record page =
  embedder :: "(string \<Rightarrow> real list) option"
  embeddingsData :: "corpus option"
  currentEventId :: "string option"
  currentData :: "graph option"
  apiKeyInput :: string
  userQuery :: string
  statusDiv :: status
  queryResults :: "query_result option"
  calls :: "call list"

definition initial_page :: page where
  "initial_page =
     \<lparr>embedder = None, embeddingsData = None, currentEventId = None, currentData = None,
      apiKeyInput = [], userQuery = [], statusDiv = Blank, queryResults = None,
      calls = []\<rparr>"

text \<open>\<^verbatim>\<open>String.prototype.trim\<close>, for the ASCII white space characters.\<close>

definition is_space :: "char \<Rightarrow> bool" where
  "is_space c = (c \<in> {CHR '' '', CHR 0x09, CHR 0x0A, CHR 0x0B, CHR 0x0C, CHR 0x0D})"

definition trim :: "string \<Rightarrow> string" where
  "trim s = rev (dropWhile is_space (rev (dropWhile is_space s)))"

definition loadEmbeddings :: "world \<Rightarrow> string \<Rightarrow> error + corpus" where
  "loadEmbeddings w eventId' =
     (case fetch_embeddings w eventId' of
        Inl e \<Rightarrow> Inl (Error ''Could not load embeddings for this event. Make sure embeddings are generated and uploaded.'')
      | Inr (docs, embs) \<Rightarrow> Inr \<lparr>eventId = eventId', documents = docs, embeddings = embs\<rparr>)"

text \<open>The steps of the \<^verbatim>\<open>try\<close> block return the thrown error, if any, with the page as it
  is at that point.\<close>

definition load_embedder :: "world \<Rightarrow> page \<Rightarrow> error option \<times> page" where
  "load_embedder w st =
     (case embedder st of
        Some f \<Rightarrow> (None, st)
      | None \<Rightarrow>
          (let st1 = st\<lparr>statusDiv := Info ''Loading embedding model (first time only)...'',
                        calls := calls st @ [LoadModel]\<rparr>
           in case load_model w of
                Inl e \<Rightarrow> (Some e, st1)
              | Inr f \<Rightarrow> (None, st1\<lparr>embedder := Some f\<rparr>)))"

definition cache_stale :: "page \<Rightarrow> string \<Rightarrow> bool" where
  "cache_stale st selected =
     (case embeddingsData st of None \<Rightarrow> True | Some c \<Rightarrow> eventId c \<noteq> selected)"

definition load_corpus :: "world \<Rightarrow> string \<Rightarrow> page \<Rightarrow> error option \<times> page" where
  "load_corpus w selected st =
     (if cache_stale st selected
      then (let st1 = st\<lparr>statusDiv := Info ''Loading document embeddings...'',
                         calls := calls st @ [LoadEmbeddings selected]\<rparr>
            in case loadEmbeddings w selected of
                 Inl e \<Rightarrow> (Some e, st1)
               | Inr c \<Rightarrow> (None, st1\<lparr>embeddingsData := Some c\<rparr>))
      else (None, st))"

definition retrieve_and_answer :: "world \<Rightarrow> string \<Rightarrow> string \<Rightarrow> string \<Rightarrow> page \<Rightarrow> error option \<times> page" where
  "retrieve_and_answer w apiKey query selected st =
     (case (embedder st, embeddingsData st) of
        (Some f, Some c) \<Rightarrow>
          (let st1 = st\<lparr>statusDiv := Info ''Searching relevant documents...'',
                        calls := calls st @ [Embed query]\<rparr>
           in case retrieveDocuments f query c 10 of
                Inl e \<Rightarrow> (Some e, st1)
              | Inr retrievedDocs \<Rightarrow>
                  (let st2 = st1\<lparr>statusDiv := Info ''Generating answer with citations...'',
                                 calls := calls st1 @ [Generate query retrievedDocs]\<rparr>
                   in case generateAnswerWithCitations (chat_completion w apiKey query retrievedDocs)
                             retrievedDocs of
                        Inl e \<Rightarrow> (Some e, st2)
                      | Inr result \<Rightarrow>
                          (None, st2\<lparr>queryResults := Some result, statusDiv := Success\<rparr>)))
      | _ \<Rightarrow> (Some TypeError, st))"

definition try_query :: "world \<Rightarrow> string \<Rightarrow> string \<Rightarrow> string \<Rightarrow> page \<Rightarrow> error option \<times> page" where
  "try_query w apiKey query selected st =
     (case load_embedder w st of
        (Some e, st1) \<Rightarrow> (Some e, st1)
      | (None, st1) \<Rightarrow>
          (case load_corpus w selected st1 of
             (Some e, st2) \<Rightarrow> (Some e, st2)
           | (None, st2) \<Rightarrow> retrieve_and_answer w apiKey query selected st2))"

text \<open>The handler: three checks that return early with a warning, then the \<^verbatim>\<open>try\<close> block;
  the \<^verbatim>\<open>catch\<close> clause shows the error. An event id is missing when it is \<^verbatim>\<open>null\<close> or the
  empty string.\<close>

definition handleCustomQuery :: "world \<Rightarrow> page \<Rightarrow> page" where
  "handleCustomQuery w st =
     (let apiKey = trim (apiKeyInput st); query = trim (userQuery st)
      in if apiKey = [] then st\<lparr>statusDiv := Warning ''Please enter your OpenAI API key''\<rparr>
         else if query = [] then st\<lparr>statusDiv := Warning ''Please enter a question''\<rparr>
         else (case currentEventId st of
                 None \<Rightarrow> st\<lparr>statusDiv := Warning ''Please select an event first''\<rparr>
               | Some selected \<Rightarrow>
                   if selected = [] then st\<lparr>statusDiv := Warning ''Please select an event first''\<rparr>
                   else (case try_query w apiKey query selected
                                (st\<lparr>statusDiv := Blank, queryResults := None\<rparr>) of
                           (Some e, st') \<Rightarrow> st'\<lparr>statusDiv := Failure e\<rparr>
                         | (None, st') \<Rightarrow> st')))"


section \<open>Notions used in the statements\<close>

text \<open>Relabelling a token sequence: characters outside matches stay, the digits of a match are
  replaced.\<close>

fun retarget :: "(string \<Rightarrow> string) \<Rightarrow> token \<Rightarrow> token" where
  "retarget g (Lit c) = Lit c"
| "retarget g (Marker ds) = Marker (g ds)"

text \<open>The digits that the replacement callback writes for a match.\<close>

definition renumbered_digits :: "(nat \<times> nat) list \<Rightarrow> string \<Rightarrow> string" where
  "renumbered_digits oldToNew ds = render (new_number oldToNew (parseInt ds))"

text \<open>The text with every match blanked: the characters outside matches, in place, and one
  \<open>None\<close> per match.\<close>

definition skeleton :: "string \<Rightarrow> char option list" where
  "skeleton s = map (\<lambda>t. case t of Lit c \<Rightarrow> Some c | Marker ds \<Rightarrow> None) (scan s)"

text \<open>The new numbers in the order in which the walk over the markers hands them out, starting
  from a map \<open>m\<close> and a counter \<open>k\<close>.\<close>

fun renum :: "(nat \<times> nat) list \<Rightarrow> nat \<Rightarrow> nat list \<Rightarrow> nat list" where
  "renum m k [] = []"
| "renum m k (x # xs) =
     (case map_of m x of
        Some v \<Rightarrow> v # renum m k xs
      | None \<Rightarrow> k # renum (m @ [(x, k)]) (Suc k) xs)"

text \<open>The numbers of a list that are not in \<open>S\<close>, each once, in order of first appearance.\<close>

fun fresh :: "nat set \<Rightarrow> nat list \<Rightarrow> nat list" where
  "fresh S [] = []"
| "fresh S (x # xs) = (if x \<in> S then fresh S xs else x # fresh (insert x S) xs)"

text \<open>The citation that \<^verbatim>\<open>extractCitations\<close> builds for the number \<open>n\<close>.\<close>

definition cite :: "retrieved_doc list \<Rightarrow> nat \<Rightarrow> citation" where
  "cite retrievedDocs n =
     \<lparr>content = content (retrievedDocs ! (n - 1)), metadata = metadata (retrievedDocs ! (n - 1)),
      source_id = n\<rparr>"

text \<open>Reading a slot of an array with holes, and the elements a slot contributes once the
  holes are filtered out.\<close>

definition slot_at :: "'a option list \<Rightarrow> nat \<Rightarrow> 'a option" where
  "slot_at arr i = (if i < length arr then arr ! i else None)"

definition opt_list :: "'a option \<Rightarrow> 'a list" where
  "opt_list c = (case c of None \<Rightarrow> [] | Some x \<Rightarrow> [x])"

text \<open>The citation that ends up in slot \<open>i\<close> of \<^verbatim>\<open>newCitations\<close>: the last citation of the
  list whose old number is mapped to \<open>i + 1\<close>, with its number rewritten.\<close>

definition hit :: "(nat \<times> nat) list \<Rightarrow> citation list \<Rightarrow> nat \<Rightarrow> citation option" where
  "hit m cs i = map_option (\<lambda>c. c\<lparr>source_id := Suc i\<rparr>)
                  (find (\<lambda>c. map_of m (source_id c) = Some (Suc i)) (rev cs))"

text \<open>No dangling markers, in the weakest reading: every marker \<open>[k]\<close> of the answer has an
  entry \<open>citations[k-1]\<close>.\<close>

definition no_dangling :: "query_result \<Rightarrow> bool" where
  "no_dangling r =
     list_all (\<lambda>k. 1 \<le> k \<and> k \<le> length (citations r)) (map parseInt (markers (answer r)))"

text \<open>No orphan citations: every entry \<open>citations[i]\<close> is referenced by a marker \<open>[i+1]\<close> of
  the answer, and the number of every entry is the number of a marker of the answer.\<close>

definition no_orphans :: "query_result \<Rightarrow> bool" where
  "no_orphans r =
     (list_all (\<lambda>i. Suc i \<in> set (map parseInt (markers (answer r)))) [0..<length (citations r)]
      \<and> list_all (\<lambda>e. source_id e \<in> set (map parseInt (markers (answer r)))) (citations r))"

definition closed_result :: "query_result \<Rightarrow> bool" where
  "closed_result r = (no_dangling r \<and> no_orphans r)"

text \<open>Every marker of the text names one of the retrieved documents.\<close>

definition in_range :: "string \<Rightarrow> retrieved_doc list \<Rightarrow> bool" where
  "in_range t docs = list_all (\<lambda>k. 1 \<le> k \<and> k \<le> length docs) (map parseInt (markers t))"

text \<open>Two retrieved documents for the concrete runs.\<close>

definition doc_a :: retrieved_doc where
  "doc_a = \<lparr>content = ''levee breach'', metadata = \<lparr>title = Some ''Report A'', url = None\<rparr>,
            score = Some 1, sourceId = 1\<rparr>"

definition doc_b :: retrieved_doc where
  "doc_b = \<lparr>content = ''shelters opened'', metadata = \<lparr>title = None, url = None\<rparr>,
            score = Some 0, sourceId = 2\<rparr>"

text \<open>The order of the ranking on pairs of score and index: higher score first, and the lower
  index first among equal scores. The same order on indices, for a list of scores.\<close>

definition ranks_before :: "real option \<times> nat \<Rightarrow> real option \<times> nat \<Rightarrow> bool" where
  "ranks_before p q = (the (fst q) < the (fst p) \<or> (the (fst p) = the (fst q) \<and> snd p < snd q))"

definition better :: "real option list \<Rightarrow> nat \<Rightarrow> nat \<Rightarrow> bool" where
  "better scores i j = ranks_before (scores ! i, i) (scores ! j, j)"

text \<open>The comparison \<^verbatim>\<open>a >= b\<close> of two scores: false when one of them is NaN.\<close>

definition score_ge :: "real option \<Rightarrow> real option \<Rightarrow> bool" where
  "score_ge a b = (case (a, b) of (Some x, Some y) \<Rightarrow> y \<le> x | _ \<Rightarrow> False)"

text \<open>The retrieved document built for corpus index \<open>idx\<close> at rank \<open>rank\<close>.\<close>

definition ranked_doc :: "document list \<Rightarrow> real option list \<Rightarrow> nat \<Rightarrow> nat \<Rightarrow> retrieved_doc" where
  "ranked_doc docs scores idx rank =
     \<lparr>content = content (docs ! idx), metadata = metadata (docs ! idx),
      score = scores ! idx, sourceId = rank + 1\<rparr>"

text \<open>A corpus of three documents for the concrete runs.\<close>

definition docs3 :: "document list" where
  "docs3 = [\<lparr>content = ''a'', metadata = \<lparr>title = None, url = None\<rparr>\<rparr>,
            \<lparr>content = ''b'', metadata = \<lparr>title = None, url = None\<rparr>\<rparr>,
            \<lparr>content = ''c'', metadata = \<lparr>title = None, url = None\<rparr>\<rparr>]"

definition corpus3 :: corpus where
  "corpus3 = \<lparr>eventId = ''2021-0001-DEU'', documents = docs3,
               embeddings = [[0, 1], [1, 0], [1, 0]]\<rparr>"

text \<open>A corpus whose first embedding is the zero vector, and one with fewer documents than
  embeddings.\<close>

definition corpus_nan :: corpus where
  "corpus_nan = \<lparr>eventId = ''2021-0001-DEU'', documents = take 2 docs3,
                  embeddings = [[0, 0], [1, 0]]\<rparr>"

definition corpus_short :: corpus where
  "corpus_short = \<lparr>eventId = ''2021-0001-DEU'', documents = take 1 docs3,
                    embeddings = [[0, 1], [1, 0]]\<rparr>"

definition validation_warning :: "status \<Rightarrow> bool" where
  "validation_warning s =
     (s = Warning ''Please enter your OpenAI API key'' \<or> s = Warning ''Please enter a question''
      \<or> s = Warning ''Please select an event first'')"

text \<open>A world in which one event file exists, for the concrete runs, and the page after the
  first event was selected and a question about it was answered.\<close>

definition world0 :: world where
  "world0 =
     \<lparr>load_model = Inr (\<lambda>q. [1]),
      fetch_embeddings = (\<lambda>i. Inr ([\<lparr>content = ''levee breach'', metadata = \<lparr>title = None, url = None\<rparr>\<rparr>], [[1]])),
      chat_completion = (\<lambda>k q ds. ApiOk ''The levee failed [1].''),
      fetch_event = (\<lambda>f. if f = ''flood_deu.json'' then Inr (Graph ''{}'')
                          else Inl (Error ''HTTP error! status: 404'')),
      draw_graph = (\<lambda>g. None)\<rparr>"


section \<open>Digits and numbers\<close>

lemma digit_char_is_digit: "n < 10 \<Longrightarrow> is_digit (digit_char n)"
proof -
  assume "n < 10"
  then have "n \<in> {0,1,2,3,4,5,6,7,8,9}" by auto
  then show ?thesis by (auto simp: is_digit_def digit_char_def)
qed

lemma digit_val_digit_char: "n < 10 \<Longrightarrow> digit_val (digit_char n) = n"
proof -
  assume "n < 10"
  then have "n \<in> {0,1,2,3,4,5,6,7,8,9}" by auto
  then show ?thesis by (auto simp: digit_val_def digit_char_def)
qed

lemma render_nonempty: "render n \<noteq> []"
  by (subst render.simps) simp

lemma render_digits: "c \<in> set (render n) \<Longrightarrow> is_digit c"
proof (induction n arbitrary: c rule: render.induct)
  case (1 n)
  show ?case
  proof (cases "n < 10")
    case True
    with "1.prems" show ?thesis
      by (subst (asm) render.simps) (simp add: digit_char_is_digit)
  next
    case False
    with "1.prems" have "c \<in> set (render (n div 10)) \<or> c = digit_char (n mod 10)"
      by (subst (asm) render.simps) auto
    with False "1.IH" show ?thesis
      by (auto simp: digit_char_is_digit)
  qed
qed

lemma parseInt_snoc: "parseInt (ds @ [c]) = 10 * parseInt ds + digit_val c"
  by (simp add: parseInt_def)

lemma parseInt_render: "parseInt (render n) = n"
proof (induction n rule: render.induct)
  case (1 n)
  show ?case
  proof (cases "n < 10")
    case True
    then show ?thesis
      by (subst render.simps) (simp add: parseInt_def digit_val_digit_char)
  next
    case False
    with "1.IH" have "parseInt (render (n div 10)) = n div 10" by simp
    with False show ?thesis
      by (subst render.simps) (simp add: parseInt_snoc digit_val_digit_char)
  qed
qed


lemma match_here_SomeD:
  assumes "match_here s = Some (ds, rest)"
  shows "s = bracketed ds @ rest \<and> ds \<noteq> [] \<and> (\<forall>c \<in> set ds. is_digit c)"
proof (cases s)
  case Nil
  with assms show ?thesis by simp
next
  case (Cons c cs)
  from assms Cons have c: "c = CHR ''[''" by (auto split: if_splits)
  from assms Cons c obtain d where d: "dropWhile is_digit cs = d # rest"
    and ds: "ds = takeWhile is_digit cs" and ne: "ds \<noteq> []" and dc: "d = CHR '']''"
    by (auto split: if_splits list.splits)
  have "cs = takeWhile is_digit cs @ dropWhile is_digit cs" by simp
  with d ds dc have "cs = ds @ '']'' @ rest" by simp
  moreover have "\<forall>c \<in> set ds. is_digit c" using ds by (auto dest: set_takeWhileD)
  ultimately show ?thesis using Cons c ne by (simp add: bracketed_def)
qed

lemma match_here_marker:
  assumes "ds \<noteq> []" and "\<forall>c \<in> set ds. is_digit c"
  shows "match_here (bracketed ds @ rest) = Some (ds, rest)"
proof -
  have nd: "\<not> is_digit CHR '']''" by (simp add: is_digit_def)
  have t: "takeWhile is_digit (ds @ CHR '']'' # rest) = ds"
    using assms(2) nd by (simp add: takeWhile_append2)
  have d: "dropWhile is_digit (ds @ CHR '']'' # rest) = CHR '']'' # rest"
    using assms(2) nd by (simp add: dropWhile_append2)
  show ?thesis using assms(1) by (simp add: t d bracketed_def)
qed

lemma scan_text: "concat (map token_text (scan s)) = s"
proof (induction s rule: scan.induct)
  case 1
  show ?case by simp
next
  case (2 c cs)
  show ?case
  proof (cases "match_here (c # cs)")
    case None
    with "2.IH"(1) show ?thesis by simp
  next
    case (Some p)
    obtain ds rest where p: "p = (ds, rest)" by (cases p)
    from Some p have eq: "c # cs = bracketed ds @ rest"
      using match_here_SomeD by blast
    from "2.IH"(2) Some p have ih: "concat (map token_text (scan rest)) = rest" by simp
    have "scan (c # cs) = Marker ds # scan rest"
      using Some p by (simp del: match_here.simps)
    then have "concat (map token_text (scan (c # cs))) = bracketed ds @ rest"
      using ih by simp
    then show ?thesis by (simp only: eq)
  qed
qed

section \<open>Replacing markers and scanning again\<close>

lemma replace_markers_Nil: "replace_markers f [] = []"
  by (simp add: replace_markers_def)

lemma replace_markers_lit:
  "match_here (c # cs) = None \<Longrightarrow> replace_markers f (c # cs) = c # replace_markers f cs"
  by (simp add: replace_markers_def del: match_here.simps)

lemma replace_markers_marker:
  "match_here (c # cs) = Some (ds, rest) \<Longrightarrow>
   replace_markers f (c # cs) = f ds @ replace_markers f rest"
  by (simp add: replace_markers_def del: match_here.simps)

lemma is_digit_not_bracket: "is_digit c \<Longrightarrow> c \<noteq> CHR ''[''"
  by (auto simp: is_digit_def)

lemma replace_markers_digits:
  "\<forall>c \<in> set ds. is_digit c \<Longrightarrow> replace_markers f (ds @ r) = ds @ replace_markers f r"
proof (induction ds)
  case Nil
  show ?case by simp
next
  case (Cons d ds)
  then have "match_here (d # ds @ r) = None"
    by (simp add: is_digit_not_bracket)
  then have "replace_markers f (d # ds @ r) = d # replace_markers f (ds @ r)"
    by (rule replace_markers_lit)
  with Cons show ?case by simp
qed

lemma replace_markers_head:
  "\<exists>t. replace_markers (\<lambda>ds. bracketed (g ds)) (x # r) = x # t"
proof (cases "match_here (x # r)")
  case None
  then show ?thesis by (simp add: replace_markers_lit del: match_here.simps)
next
  case (Some p)
  obtain ds rest where p: "p = (ds, rest)" by (cases p)
  with Some have "x = CHR ''[''" by (auto split: if_splits)
  moreover from Some p
  have "replace_markers (\<lambda>ds. bracketed (g ds)) (x # r)
          = bracketed (g ds) @ replace_markers (\<lambda>ds. bracketed (g ds)) rest"
    by (simp add: replace_markers_marker del: match_here.simps)
  ultimately show ?thesis by (simp add: bracketed_def)
qed

lemma match_here_None_replace:
  assumes "match_here (c # cs) = None"
  shows "match_here (c # replace_markers (\<lambda>ds. bracketed (g ds)) cs) = None"
proof (cases "c = CHR ''[''")
  case False
  then show ?thesis by simp
next
  case True
  let ?R = "replace_markers (\<lambda>ds. bracketed (g ds))"
  define ds where "ds = takeWhile is_digit cs"
  define r where "r = dropWhile is_digit cs"
  have cs: "cs = ds @ r" by (simp add: ds_def r_def)
  have dig: "\<forall>c \<in> set ds. is_digit c" by (auto simp: ds_def dest: set_takeWhileD)
  have R: "?R cs = ds @ ?R r"
    unfolding cs using dig by (rule replace_markers_digits)
  have orig: "match_here (c # cs) =
      (case r of [] \<Rightarrow> None | d # rest \<Rightarrow> if ds \<noteq> [] \<and> d = CHR '']'' then Some (ds, rest) else None)"
    unfolding ds_def r_def using True by simp
  show ?thesis
  proof (cases r)
    case Nil
    then have Rcs: "?R cs = ds" using R by (simp add: replace_markers_Nil)
    have "dropWhile is_digit ds = []" using dig by simp
    then show ?thesis unfolding Rcs using True by (simp only: match_here.simps list.case if_cancel)
  next
    case (Cons x r')
    have "r \<noteq> []" using Cons by simp
    then have "\<not> is_digit (hd r)" unfolding r_def by (rule hd_dropWhile)
    then have nx: "\<not> is_digit x" using Cons by simp
    obtain t where t: "?R (x # r') = x # t" using replace_markers_head by blast
    have Rcs: "?R cs = ds @ x # t" using R Cons t by simp
    have tk: "takeWhile is_digit (ds @ x # t) = ds"
      using nx dig by (simp add: takeWhile_append2)
    have dr: "dropWhile is_digit (ds @ x # t) = x # t"
      using nx dig by (simp add: dropWhile_append2)
    from assms orig Cons have "\<not> (ds \<noteq> [] \<and> x = CHR '']'')"
      by (auto split: if_splits)
    then show ?thesis using True by (auto simp add: Rcs tk dr)
  qed
qed

lemma scan_replace_markers:
  assumes g: "\<And>ds. g ds \<noteq> [] \<and> (\<forall>c \<in> set (g ds). is_digit c)"
  shows "scan (replace_markers (\<lambda>ds. bracketed (g ds)) s) = map (retarget g) (scan s)"
proof (induction s rule: scan.induct)
  case 1
  show ?case by (simp add: replace_markers_Nil)
next
  case (2 c cs)
  let ?R = "replace_markers (\<lambda>ds. bracketed (g ds))"
  show ?case
  proof (cases "match_here (c # cs)")
    case None
    then have "?R (c # cs) = c # ?R cs" by (rule replace_markers_lit)
    moreover have "match_here (c # ?R cs) = None"
      using None by (rule match_here_None_replace)
    moreover have "scan (?R cs) = map (retarget g) (scan cs)"
      using "2.IH"(1) None by simp
    ultimately show ?thesis using None by (simp del: match_here.simps)
  next
    case (Some p)
    obtain ds rest where p: "p = (ds, rest)" by (cases p)
    have R: "?R (c # cs) = bracketed (g ds) @ ?R rest"
      using Some p by (simp add: replace_markers_marker del: match_here.simps)
    have m: "match_here (bracketed (g ds) @ ?R rest) = Some (g ds, ?R rest)"
      using g by (intro match_here_marker) auto
    obtain b bs where b: "bracketed (g ds) @ ?R rest = b # bs"
      by (cases "bracketed (g ds) @ ?R rest") (simp_all add: bracketed_def)
    have "scan (b # bs) = Marker (g ds) # scan (?R rest)"
      using m unfolding b by (simp del: match_here.simps)
    moreover have ih: "scan (?R rest) = map (retarget g) (scan rest)"
      using "2.IH"(2) Some p by simp
    ultimately show ?thesis using Some p by (simp add: R b del: match_here.simps)
  qed
qed

section \<open>The renumber map\<close>

lemma map_of_snoc:
  "map_of (m @ [(a, b)]) x =
     (case map_of m x of Some v \<Rightarrow> Some v | None \<Rightarrow> if x = a then Some b else None)"
  by (simp add: map_of_append map_add_def split: option.splits)

lemma remdups_snoc: "remdups (ys @ [x]) = filter (\<lambda>y. y \<noteq> x) (remdups ys) @ [x]"
  by (induction ys) auto

lemma assign_known: "map_of m x = Some v \<Longrightarrow> assign x (m, k) = (m, k)"
  by (simp add: assign_def)

lemma assign_new: "map_of m x = None \<Longrightarrow> assign x (m, k) = (m @ [(x, k)], Suc k)"
  by (simp add: assign_def)

lemma fold_assign_keeps:
  "map_of m x = Some v \<Longrightarrow> map_of (fst (fold assign xs (m, k))) x = Some v"
proof (induction xs arbitrary: m k)
  case Nil
  then show ?case by simp
next
  case (Cons y ys)
  show ?case
  proof (cases "map_of m y")
    case None
    from Cons.prems have "map_of (m @ [(y, k)]) x = Some v" by (simp add: map_of_snoc del: map_of_append)
    then have "map_of (fst (fold assign ys (m @ [(y, k)], Suc k))) x = Some v"
      by (rule Cons.IH)
    then show ?thesis using None by (simp add: assign_new)
  next
    case (Some w)
    then show ?thesis using Cons by (simp add: assign_known)
  qed
qed

lemma new_number_fold_assign:
  assumes "\<forall>x v. map_of m x = Some v \<longrightarrow> v \<noteq> 0" and "k \<noteq> 0"
  shows "map (new_number (fst (fold assign xs (m, k)))) xs = renum m k xs"
  using assms
proof (induction xs arbitrary: m k)
  case Nil
  show ?case by simp
next
  case (Cons y ys)
  show ?case
  proof (cases "map_of m y")
    case None
    let ?m = "m @ [(y, k)]"
    have inv: "\<forall>x v. map_of ?m x = Some v \<longrightarrow> v \<noteq> 0"
      using Cons.prems by (auto simp: map_of_snoc simp del: map_of_append split: option.splits if_splits)
    have tl: "map (new_number (fst (fold assign ys (?m, Suc k)))) ys = renum ?m (Suc k) ys"
      using inv by (intro Cons.IH) auto
    have "map_of ?m y = Some k" using None by (simp add: map_of_snoc del: map_of_append)
    then have "map_of (fst (fold assign ys (?m, Suc k))) y = Some k"
      by (rule fold_assign_keeps)
    then have hd: "new_number (fst (fold assign ys (?m, Suc k))) y = k"
      using Cons.prems(2) by (simp add: new_number_def)
    show ?thesis using None hd tl by (simp add: assign_new)
  next
    case (Some w)
    have tl: "map (new_number (fst (fold assign ys (m, k)))) ys = renum m k ys"
      using Cons.prems by (intro Cons.IH) auto
    have "map_of (fst (fold assign ys (m, k))) y = Some w"
      using Some by (rule fold_assign_keeps)
    moreover have "w \<noteq> 0" using Some Cons.prems(1) by blast
    ultimately have hd: "new_number (fst (fold assign ys (m, k))) y = w"
      by (simp add: new_number_def)
    show ?thesis using Some hd tl by (simp add: assign_known)
  qed
qed

lemma renum_idem:
  assumes "\<forall>x v. map_of m x = Some v \<longrightarrow> map_of m' v = Some v"
    and "\<forall>j\<ge>k. map_of m' j = None"
  shows "renum m' k (renum m k xs) = renum m k xs"
  using assms
proof (induction xs arbitrary: m m' k)
  case Nil
  show ?case by simp
next
  case (Cons y ys)
  show ?case
  proof (cases "map_of m y")
    case None
    let ?m = "m @ [(y, k)]" and ?m' = "m' @ [(k, k)]"
    have k: "map_of m' k = None" using Cons.prems(2) by simp
    have a: "\<forall>x v. map_of ?m x = Some v \<longrightarrow> map_of ?m' v = Some v"
    proof (intro allI impI)
      fix x v assume xv: "map_of ?m x = Some v"
      show "map_of ?m' v = Some v"
      proof (cases "map_of m x")
        case None
        with xv have "v = k" by (auto simp: map_of_snoc simp del: map_of_append split: if_splits)
        with k show ?thesis by (simp add: map_of_snoc del: map_of_append)
      next
        case (Some w)
        with xv have "v = w" by (simp add: map_of_snoc del: map_of_append)
        with Some Cons.prems(1) have "map_of m' v = Some v" by blast
        then show ?thesis by (simp add: map_of_snoc del: map_of_append)
      qed
    qed
    have b: "\<forall>j\<ge>Suc k. map_of ?m' j = None"
      using Cons.prems(2) by (auto simp: map_of_snoc simp del: map_of_append)
    have "renum ?m' (Suc k) (renum ?m (Suc k) ys) = renum ?m (Suc k) ys"
      using a b by (rule Cons.IH)
    then show ?thesis using None k by simp
  next
    case (Some w)
    with Cons.prems(1) have "map_of m' w = Some w" by blast
    moreover have "renum m' k (renum m k ys) = renum m k ys"
      using Cons.prems by (rule Cons.IH)
    ultimately show ?thesis using Some by simp
  qed
qed

lemma fold_assign_fresh:
  "fold assign xs (m, k) =
     (m @ zip (fresh (fst ` set m) xs) [k..<k + length (fresh (fst ` set m) xs)],
      k + length (fresh (fst ` set m) xs))"
proof (induction xs arbitrary: m k)
  case Nil
  show ?case by simp
next
  case (Cons y ys)
  show ?case
  proof (cases "map_of m y")
    case None
    then have ny: "y \<notin> fst ` set m" by (simp add: map_of_eq_None_iff)
    have S: "fst ` set (m @ [(y, k)]) = insert y (fst ` set m)" by auto
    let ?f = "fresh (insert y (fst ` set m)) ys"
    have "fold assign (y # ys) (m, k) = fold assign ys (m @ [(y, k)], Suc k)"
      using None by (simp add: assign_new)
    also have "\<dots> = ((m @ [(y, k)]) @ zip ?f [Suc k..<Suc k + length ?f], Suc k + length ?f)"
      unfolding Cons.IH S ..
    also have "\<dots> = (m @ zip (y # ?f) [k..<k + length (y # ?f)], k + length (y # ?f))"
      by (simp add: upt_conv_Cons del: upt_Suc)
    finally show ?thesis using ny by simp
  next
    case (Some w)
    then have "y \<in> fst ` set m" by (metis map_of_eq_None_iff option.distinct(1))
    then show ?thesis using Some Cons.IH by (simp add: assign_known)
  qed
qed

lemma fresh_remdups: "fresh S xs = rev (remdups (rev (filter (\<lambda>x. x \<notin> S) xs)))"
proof (induction xs arbitrary: S)
  case Nil
  show ?case by simp
next
  case (Cons y ys)
  show ?case
  proof (cases "y \<in> S")
    case True
    then show ?thesis using Cons.IH by simp
  next
    case False
    let ?fs = "filter (\<lambda>x. x \<notin> S) ys"
    have "remdups (rev ?fs @ [y]) = filter (\<lambda>x. x \<noteq> y) (remdups (rev ?fs)) @ [y]"
      by (rule remdups_snoc)
    also have "filter (\<lambda>x. x \<noteq> y) (remdups (rev ?fs)) = remdups (rev (filter (\<lambda>x. x \<notin> insert y S) ys))"
      by (simp add: remdups_filter [symmetric] rev_filter [symmetric] conj_commute)
    finally have "rev (remdups (rev ?fs @ [y])) = y # rev (remdups (rev (filter (\<lambda>x. x \<notin> insert y S) ys)))"
      by simp
    then show ?thesis using False Cons.IH by simp
  qed
qed

section \<open>Renumbering a text\<close>

lemma renumbered_digits_ok:
  "renumbered_digits m ds \<noteq> [] \<and> (\<forall>c \<in> set (renumbered_digits m ds). is_digit c)"
  by (simp add: renumbered_digits_def render_nonempty render_digits)

lemma new_marker_eq: "new_marker m = (\<lambda>ds. bracketed (renumbered_digits m ds))"
  by (rule ext) (simp add: new_marker_def renumbered_digits_def)

lemma scan_renumbered:
  "scan (fst (renumberCitations t)) =
     map (retarget (renumbered_digits (snd (renumberCitations t)))) (scan t)"
proof -
  let ?m = "snd (renumberCitations t)"
  have "fst (renumberCitations t) = replace_markers (\<lambda>ds. bracketed (renumbered_digits ?m ds)) t"
    by (simp add: renumberCitations_def Let_def new_marker_eq)
  then show ?thesis
    using scan_replace_markers [of "renumbered_digits ?m" t] renumbered_digits_ok by simp
qed

lemma markers_map_retarget: 
  "concat (map capture (map (retarget g) ts)) =
   map g (concat (map capture ts))"
proof (induction ts)
  case Nil
  show ?case by simp
next
  case (Cons a ts)
  then show ?case by (cases a) simp_all
qed

lemma markers_renumbered:
  "markers (fst (renumberCitations t)) =
     map (renumbered_digits (snd (renumberCitations t))) (markers t)"
  unfolding markers_def scan_renumbered by (rule markers_map_retarget)

lemma skeleton_renumbered: "skeleton (fst (renumberCitations t)) = skeleton t"
proof -
  have "\<And>g a. (case retarget g a of Lit c \<Rightarrow> Some c | Marker ds \<Rightarrow> None) =
              (case a of Lit c \<Rightarrow> Some c | Marker ds \<Rightarrow> None)"
    by (case_tac a) simp_all
  then show ?thesis by (simp add: skeleton_def scan_renumbered comp_def)
qed

lemma mapping_eq:
  "snd (renumberCitations t) = fst (fold assign (map parseInt (markers t)) ([], 1))"
  by (simp add: renumberCitations_def Let_def)

lemma found_renumbered:
  "map parseInt (markers (fst (renumberCitations t))) =
     renum [] 1 (map parseInt (markers t))"
proof -
  let ?xs = "map parseInt (markers t)"
  have "map parseInt (markers (fst (renumberCitations t)))
          = map (new_number (snd (renumberCitations t))) ?xs"
    by (simp add: markers_renumbered renumbered_digits_def parseInt_render comp_def)
  also have "\<dots> = renum [] 1 ?xs"
    unfolding mapping_eq by (rule new_number_fold_assign) simp_all
  finally show ?thesis .
qed

lemma length_remdups_rev: "length (remdups (rev xs)) = length (remdups xs)"
  by (simp add: length_remdups_card_conv)

lemma mapping_zip:
  "snd (renumberCitations t) =
     zip (rev (remdups (rev (map parseInt (markers t)))))
         [1..<Suc (length (remdups (map parseInt (markers t))))]"
proof -
  let ?xs = "map parseInt (markers t)"
  have "length (fresh {} ?xs) = length (remdups ?xs)"
    by (simp add: fresh_remdups length_remdups_rev)
  then show ?thesis
    unfolding mapping_eq by (simp add: fold_assign_fresh del: upt_Suc) (simp add: fresh_remdups)
qed

lemma mapping_lookup:
  assumes "x \<in> set (map parseInt (markers t))"
  shows "\<exists>v. map_of (snd (renumberCitations t)) x = Some v \<and> 1 \<le> v
            \<and> v \<le> length (remdups (map parseInt (markers t)))"
proof -
  let ?xs = "map parseInt (markers t)"
  let ?ks = "rev (remdups (rev ?xs))" and ?vs = "[1..<Suc (length (remdups ?xs))]"
  have len: "length ?ks = length ?vs" by (simp add: length_remdups_rev del: upt_Suc)
  have "x \<in> set ?ks" using assms by simp
  then obtain v where v: "map_of (zip ?ks ?vs) x = Some v"
    using map_of_zip_is_Some [OF len] by blast
  then have "v \<in> set ?vs" by (meson map_of_SomeD set_zip_rightD)
  with v show ?thesis unfolding mapping_zip by auto
qed

lemma mapping_new_number:
  "map (map_of (snd (renumberCitations t))) (map parseInt (markers t)) =
   map (\<lambda>x. Some (new_number (snd (renumberCitations t)) x)) (map parseInt (markers t))"
proof (rule map_cong [OF refl])
  fix x assume "x \<in> set (map parseInt (markers t))"
  then obtain v where "map_of (snd (renumberCitations t)) x = Some v" and "1 \<le> v"
    using mapping_lookup by blast
  then show "map_of (snd (renumberCitations t)) x = Some (new_number (snd (renumberCitations t)) x)"
    by (simp add: new_number_def)
qed

text \<open>
  C3. Walking the markers left to right, each old number gets the next unused new number,
  starting at 1, on its first appearance, and keeps it afterwards. The keys of the map are the
  distinct old numbers in order of first appearance (\<open>remdups\<close> keeps the last copy of each
  element, so it is applied to the reversed list), the values are \<open>1, 2, ..., n\<close>, every
  marker is looked up in the map, and the markers of the rewritten text are the looked-up
  numbers in the same order. For markers reading 3, 1, 3, 2 the map is
  \<open>3 \<mapsto> 1, 1 \<mapsto> 2, 2 \<mapsto> 3\<close> and the rewritten markers read 1, 2, 1, 3.
\<close>

theorem renumber_map_first_appearance:
  "map fst (snd (renumberCitations t)) = rev (remdups (rev (map parseInt (markers t))))
   \<and> map snd (snd (renumberCitations t)) = [1..<Suc (length (snd (renumberCitations t)))]
   \<and> map (map_of (snd (renumberCitations t))) (map parseInt (markers t))
       = map (\<lambda>x. Some (new_number (snd (renumberCitations t)) x)) (map parseInt (markers t))
   \<and> markers (fst (renumberCitations t))
       = map (\<lambda>ds. render (new_number (snd (renumberCitations t)) (parseInt ds))) (markers t)
   \<and> (map parseInt (markers t) = [3, 1, 3, 2] \<longrightarrow>
        snd (renumberCitations t) = [(3, 1), (1, 2), (2, 3)]
        \<and> markers (fst (renumberCitations t)) = [''1'', ''2'', ''1'', ''3''])"
proof (intro conjI impI)
  let ?xs = "map parseInt (markers t)"
  let ?ks = "rev (remdups (rev ?xs))" and ?vs = "[1..<Suc (length (remdups ?xs))]"
  have len: "length ?ks = length ?vs" by (simp add: length_remdups_rev del: upt_Suc)
  show "map fst (snd (renumberCitations t)) = ?ks"
    unfolding mapping_zip using len by (simp only: map_fst_zip)
  have l: "length (snd (renumberCitations t)) = length (remdups ?xs)"
    unfolding mapping_zip by (simp add: length_remdups_rev del: upt_Suc)
  have "map snd (zip ?ks ?vs) = ?vs" using len by (simp only: map_snd_zip)
  then have "map snd (snd (renumberCitations t)) = ?vs"
    by (simp only: mapping_zip [symmetric])
  then show "map snd (snd (renumberCitations t)) = [1..<Suc (length (snd (renumberCitations t)))]"
    by (simp only: l)
  show "map (map_of (snd (renumberCitations t))) ?xs
          = map (\<lambda>x. Some (new_number (snd (renumberCitations t)) x)) ?xs"
    by (rule mapping_new_number)
  show out: "markers (fst (renumberCitations t))
          = map (\<lambda>ds. render (new_number (snd (renumberCitations t)) (parseInt ds))) (markers t)"
    by (simp add: markers_renumbered renumbered_digits_def)
  assume ex: "?xs = [3, 1, 3, 2]"
  show m: "snd (renumberCitations t) = [(3, 1), (1, 2), (2, 3)]"
    unfolding mapping_eq ex by (simp add: assign_def)
  have "markers (fst (renumberCitations t)) = map render (map (new_number (snd (renumberCitations t))) ?xs)"
    unfolding out by (simp add: comp_def)
  also have "\<dots> = map render [1, 2, 1, 3]"
    unfolding ex m by (simp add: new_number_def)
  also have "\<dots> = [''1'', ''2'', ''1'', ''3'']"
    by (simp add: render.simps digit_char_def)
  finally show "markers (fst (renumberCitations t)) = [''1'', ''2'', ''1'', ''3'']" .
qed

text \<open>The example of C3 on a concrete text.\<close>

theorem renumber_map_first_appearance_witness:
  "map parseInt (markers ''[3] and [1], [3][2]'') = [3, 1, 3, 2]
   \<and> snd (renumberCitations ''[3] and [1], [3][2]'') = [(3, 1), (1, 2), (2, 3)]
   \<and> markers (fst (renumberCitations ''[3] and [1], [3][2]'')) = [''1'', ''2'', ''1'', ''3'']
   \<and> fst (renumberCitations ''[3] and [1], [3][2]'') = ''[1] and [2], [1][3]''"
proof -
  have s: "scan ''[3] and [1], [3][2]'' =
      [Marker ''3'', Lit CHR '' '', Lit CHR ''a'', Lit CHR ''n'', Lit CHR ''d'', Lit CHR '' '',
       Marker ''1'', Lit CHR '','', Lit CHR '' '', Marker ''3'', Marker ''2'']"
    by (simp add: is_digit_def)
  have h: "map parseInt (markers ''[3] and [1], [3][2]'') = [3, 1, 3, 2]"
    by (simp add: markers_def is_digit_def parseInt_def digit_val_def)
  have m: "snd (renumberCitations ''[3] and [1], [3][2]'') = [(3, 1), (1, 2), (2, 3)]"
    and o: "markers (fst (renumberCitations ''[3] and [1], [3][2]'')) = [''1'', ''2'', ''1'', ''3'']"
    using renumber_map_first_appearance [of "''[3] and [1], [3][2]''"] h by blast+
  have "fst (renumberCitations ''[3] and [1], [3][2]'')
          = replace_markers (new_marker [(3, 1), (1, 2), (2, 3)]) ''[3] and [1], [3][2]''"
    using m by (simp add: renumberCitations_def Let_def)
  also have "\<dots> = ''[1] and [2], [1][3]''"
    by (simp add: replace_markers_def is_digit_def new_marker_def new_number_def parseInt_def digit_val_def
          render.simps digit_char_def bracketed_def)
  finally show ?thesis using h m o by simp
qed

text \<open>
  C9. Renumbering only touches markers. Scanning the renumbered answer gives the token
  sequence of the input with every character outside a match unchanged and every match
  replaced by a match with new digits: the same number of markers in the same places. Both
  texts are exactly the concatenation of their tokens.
\<close>

theorem renumber_touches_only_markers:
  "scan (fst (renumberCitations t))
     = map (retarget (renumbered_digits (snd (renumberCitations t)))) (scan t)
   \<and> skeleton (fst (renumberCitations t)) = skeleton t
   \<and> length (markers (fst (renumberCitations t))) = length (markers t)
   \<and> concat (map token_text (scan t)) = t
   \<and> concat (map token_text (scan (fst (renumberCitations t)))) = fst (renumberCitations t)"
proof (intro conjI)
  show "scan (fst (renumberCitations t))
     = map (retarget (renumbered_digits (snd (renumberCitations t)))) (scan t)"
    by (rule scan_renumbered)
  show "skeleton (fst (renumberCitations t)) = skeleton t"
    by (rule skeleton_renumbered)
  show "length (markers (fst (renumberCitations t))) = length (markers t)"
    by (simp add: markers_renumbered)
  show "concat (map token_text (scan t)) = t"
    by (rule scan_text)
  show "concat (map token_text (scan (fst (renumberCitations t)))) = fst (renumberCitations t)"
    by (rule scan_text)
qed

lemma fresh_renum:
  assumes "\<forall>x v. map_of m x = Some v \<longrightarrow> v \<in> S" and "\<forall>j\<ge>k. j \<notin> S"
  shows "fresh S (renum m k xs) = [k..<k + length (fresh (fst ` set m) xs)]"
  using assms
proof (induction xs arbitrary: m k S)
  case Nil
  show ?case by simp
next
  case (Cons y ys)
  show ?case
  proof (cases "map_of m y")
    case None
    then have ny: "y \<notin> fst ` set m" by (simp add: map_of_eq_None_iff)
    have kS: "k \<notin> S" using Cons.prems(2) by simp
    let ?m = "m @ [(y, k)]"
    have S: "fst ` set ?m = insert y (fst ` set m)" by auto
    have a: "\<forall>x v. map_of ?m x = Some v \<longrightarrow> v \<in> insert k S"
      using Cons.prems(1) by (auto simp: map_of_snoc simp del: map_of_append split: option.splits if_splits)
    have b: "\<forall>j\<ge>Suc k. j \<notin> insert k S" using Cons.prems(2) by auto
    have "fresh (insert k S) (renum ?m (Suc k) ys)
            = [Suc k..<Suc k + length (fresh (fst ` set ?m) ys)]"
      using a b by (rule Cons.IH)
    then show ?thesis using None ny kS by (simp add: S upt_conv_Cons del: upt_Suc)
  next
    case (Some w)
    then have yin: "y \<in> fst ` set m" by (metis map_of_eq_None_iff option.distinct(1))
    have "w \<in> S" using Some Cons.prems(1) by blast
    moreover have "fresh S (renum m k ys) = [k..<k + length (fresh (fst ` set m) ys)]"
      using Cons.prems by (rule Cons.IH)
    ultimately show ?thesis using Some yin by simp
  qed
qed

lemma second_pass_identity:
  "snd (renumberCitations (fst (renumberCitations t)))
     = map (\<lambda>k. (k, k)) [1..<Suc (length (snd (renumberCitations t)))]"
proof -
  let ?t' = "fst (renumberCitations t)"
  let ?xs = "map parseInt (markers t)"
  let ?n = "length (fresh {} ?xs)"
  have n: "length (snd (renumberCitations t)) = ?n"
    unfolding mapping_eq by (simp add: fold_assign_fresh del: upt_Suc)
  have fr: "fresh {} (renum [] (Suc 0) ?xs) = [Suc 0..<Suc ?n]"
    using fresh_renum [of "[]" "{}" "Suc 0" ?xs] by simp
  have "snd (renumberCitations ?t') = fst (fold assign (renum [] 1 ?xs) ([], 1))"
    unfolding mapping_eq [of ?t'] found_renumbered ..
  also have "\<dots> = zip [1..<1 + ?n] [1..<1 + ?n]"
    by (simp add: fold_assign_fresh fr del: upt_Suc)
  also have "\<dots> = map (\<lambda>k. (k, k)) [1..<1 + ?n]"
    by (simp add: zip_same_conv_map)
  finally show ?thesis by (simp add: n del: upt_Suc)
qed

lemma renumbered_text_fixed:
  "fst (renumberCitations (fst (renumberCitations t))) = fst (renumberCitations t)"
proof -
  let ?t' = "fst (renumberCitations t)"
  let ?m = "snd (renumberCitations t)" and ?m' = "snd (renumberCitations ?t')"
  let ?xs = "map parseInt (markers t)"
  have found': "map parseInt (markers ?t') = renum [] 1 ?xs" by (rule found_renumbered)
  have "map (new_number ?m') (renum [] 1 ?xs) = renum [] 1 (renum [] 1 ?xs)"
    unfolding mapping_eq [of ?t'] found' by (rule new_number_fold_assign) simp_all
  also have "\<dots> = renum [] 1 ?xs" by (rule renum_idem) simp_all
  finally have fixp: "map (new_number ?m') (renum [] 1 ?xs) = renum [] 1 ?xs" .
  have same: "map (renumbered_digits ?m') (markers ?t') = markers ?t'"
  proof -
    have "map (renumbered_digits ?m') (markers ?t')
            = map render (map (new_number ?m') (map parseInt (markers ?t')))"
      by (simp add: renumbered_digits_def comp_def)
    also have "\<dots> = map render (map parseInt (markers ?t'))"
      unfolding found' fixp ..
    also have "\<dots> = map render (map (new_number ?m) ?xs)"
      by (simp add: markers_renumbered renumbered_digits_def parseInt_render comp_def)
    also have "\<dots> = markers ?t'"
      by (simp add: markers_renumbered renumbered_digits_def comp_def)
    finally show ?thesis .
  qed
  have "scan (fst (renumberCitations ?t')) = map (retarget (renumbered_digits ?m')) (scan ?t')"
    by (rule scan_renumbered)
  also have "\<dots> = scan ?t'"
  proof -
    have "\<And>ts. map g (concat (map capture ts))
                 = concat (map capture ts)
              \<Longrightarrow> map (retarget g) ts = ts" for g
    proof -
      fix ts :: "token list" 
      show "map g (concat (map capture ts))
                 = concat (map capture ts)
              \<Longrightarrow> map (retarget g) ts = ts"
      proof (induction ts)
        case Nil
        show ?case by simp
      next
        case (Cons a ts)
        then show ?case by (cases a) simp_all
      qed
    qed
    then show ?thesis using same unfolding markers_def by blast
  qed
  finally have "scan (fst (renumberCitations ?t')) = scan ?t'" .
  then have "concat (map token_text (scan (fst (renumberCitations ?t'))))
               = concat (map token_text (scan ?t'))" by simp
  then show ?thesis by (simp only: scan_text)
qed

text \<open>
  C10. Renumbering is idempotent on the text: renumbering the renumbered answer gives the
  renumbered answer again. In the renumbered answer the distinct numbers first appear in the
  order \<open>1, 2, ..., n\<close>, so the map of the second pass sends every number to itself.
\<close>

theorem renumber_idempotent:
  "fst (renumberCitations (fst (renumberCitations t))) = fst (renumberCitations t)
   \<and> snd (renumberCitations (fst (renumberCitations t)))
       = map (\<lambda>k. (k, k)) [1..<Suc (length (snd (renumberCitations t)))]"
  using renumbered_text_fixed [of t] second_pass_identity [of t] by (rule conjI)

section \<open>Arrays with holes\<close>

lemma slot_at_array_set:
  "slot_at (array_set arr (int j) v) i = (if i = j then Some v else slot_at arr i)"
proof (cases "j < length arr")
  case True
  then show ?thesis by (auto simp: array_set_def slot_at_def)
next
  case jge: False
  let ?pad = "replicate (j - length arr) (None :: 'a option)"
  have set: "array_set arr (int j) v = arr @ ?pad @ [Some v]"
    using jge by (simp add: array_set_def)
  have len: "length (arr @ ?pad @ [Some v]) = Suc j" using jge by simp
  show ?thesis
  proof (cases "i = j")
    case True
    have "(arr @ ?pad @ [Some v]) ! j = ((arr @ ?pad) @ [Some v]) ! length (arr @ ?pad)"
      using jge by simp
    also have "\<dots> = Some v" by (rule nth_append_length)
    finally show ?thesis using True len by (simp add: set slot_at_def)
  next
    case ne: False
    show ?thesis
    proof (cases "i < length arr")
      case True
      then show ?thesis using ne jge by (simp add: set slot_at_def nth_append)
    next
      case nlt: False
      show ?thesis
      proof (cases "i < j")
        case True
        then have "(arr @ ?pad @ [Some v]) ! i = None"
          using nlt by (simp add: nth_append)
        then show ?thesis using ne nlt True by (simp add: set slot_at_def)
      next
        case False
        then have "\<not> i < Suc j" using ne by simp
        then show ?thesis using ne nlt len by (simp only: set slot_at_def if_False)
      qed
    qed
  qed
qed

lemma slot_at_place:
  "slot_at (place m c arr) i =
     (if map_of m (source_id c) = Some (Suc i) then Some (c\<lparr>source_id := Suc i\<rparr>)
      else slot_at arr i)"
proof (cases "map_of m (source_id c)")
  case None
  then show ?thesis by (simp add: place_def)
next
  case (Some n)
  show ?thesis
  proof (cases n)
    case 0
    then show ?thesis using Some by (simp add: place_def array_set_def)
  next
    case (Suc j)
    then have "int n - 1 = int j" by simp
    then have "place m c arr = array_set arr (int j) (c\<lparr>source_id := n\<rparr>)"
      using Some by (simp add: place_def)
    then show ?thesis using Some Suc by (auto simp: slot_at_array_set)
  qed
qed

lemma find_snoc:
  "find P (xs @ [x]) = (case find P xs of Some y \<Rightarrow> Some y | None \<Rightarrow> if P x then Some x else None)"
  by (induction xs) auto

lemma slot_at_fold_place:
  "slot_at (fold (place m) cs arr) i =
     (case find (\<lambda>c. map_of m (source_id c) = Some (Suc i)) (rev cs) of
        Some c \<Rightarrow> Some (c\<lparr>source_id := Suc i\<rparr>)
      | None \<Rightarrow> slot_at arr i)"
proof (induction cs arbitrary: arr)
  case Nil
  show ?case by simp
next
  case (Cons c cs)
  show ?case
    by (simp add: Cons.IH slot_at_place find_snoc split: option.splits)
qed

lemma defined_elems_slots:
  "defined_elems arr = concat (map (\<lambda>i. opt_list (slot_at arr i)) [0..<length arr])"
proof -
  have "map (\<lambda>i. opt_list (slot_at arr i)) [0..<length arr]
          = map (\<lambda>i. opt_list (arr ! i)) [0..<length arr]"
    by (simp add: slot_at_def)
  also have "\<dots> = map opt_list (map (\<lambda>i. arr ! i) [0..<length arr])"
    by (simp add: comp_def)
  also have "\<dots> = map opt_list arr" by (simp only: map_nth)
  finally show ?thesis by (simp add: defined_elems_def opt_list_def [abs_def])
qed

lemma length_place: "length arr \<le> length (place m c arr)"
  by (simp add: place_def array_set_def split: option.splits)

lemma length_fold_place: "length arr \<le> length (fold (place m) cs arr)"
proof (induction cs arbitrary: arr)
  case Nil
  show ?case by simp
next
  case (Cons c cs)
  have "length arr \<le> length (place m c arr)" by (rule length_place)
  also have "\<dots> \<le> length (fold (place m) cs (place m c arr))" by (rule Cons.IH)
  finally show ?case by simp
qed

section \<open>Reordering citations\<close>

lemma slot_at_replicate_None: "slot_at (replicate n None) i = None"
  by (simp add: slot_at_def)

lemma slot_at_reorder:
  "slot_at (fold (place m) cs (replicate n None)) i = hit m cs i"
  by (simp add: slot_at_fold_place slot_at_replicate_None hit_def split: option.splits)

lemma reorderCitations_slots:
  "reorderCitations cs m =
     concat (map (\<lambda>i. opt_list (hit m cs i))
       [0..<length (fold (place m) cs (replicate (length (remdups (map fst m))) None))])"
  by (simp add: reorderCitations_def Let_def defined_elems_slots slot_at_reorder)

lemma hit_source_id: "hit m cs i = Some e \<Longrightarrow> source_id e = Suc i"
  by (auto simp: hit_def)

lemma hit_SomeD:
  assumes "hit m cs i = Some e"
  shows "\<exists>c \<in> set cs. map_of m (source_id c) = Some (Suc i) \<and> e = c\<lparr>source_id := Suc i\<rparr>"
proof -
  from assms obtain c where f: "find (\<lambda>c. map_of m (source_id c) = Some (Suc i)) (rev cs) = Some c"
    and e: "e = c\<lparr>source_id := Suc i\<rparr>"
    by (auto simp: hit_def)
  from f obtain j where "j < length (rev cs)" and "c = rev cs ! j"
    and p: "map_of m (source_id c) = Some (Suc i)"
    unfolding find_Some_iff by blast
  then have "c \<in> set (rev cs)" by (simp only: nth_mem)
  with e p show ?thesis by auto
qed

lemma hit_None_iff:
  "hit m cs i = None \<longleftrightarrow> \<not> (\<exists>c \<in> set cs. map_of m (source_id c) = Some (Suc i))"
  by (auto simp: hit_def find_None_iff)

lemma hit_within:
  assumes "hit m cs i \<noteq> None"
  shows "i < length (fold (place m) cs (replicate n None))"
proof (rule ccontr)
  assume "\<not> i < length (fold (place m) cs (replicate n None))"
  then have "slot_at (fold (place m) cs (replicate n None)) i = None"
    by (simp add: slot_at_def)
  with assms show False by (simp add: slot_at_reorder)
qed

lemma ids_of_slots:
  assumes "\<And>i e. f i = Some e \<Longrightarrow> source_id e = Suc i"
  shows "map source_id (concat (map (\<lambda>i. opt_list (f i)) [0..<N]))
           = map Suc (filter (\<lambda>i. f i \<noteq> None) [0..<N])"
proof (induction N)
  case 0
  show ?case by simp
next
  case (Suc N)
  show ?case
  proof (cases "f N")
    case None
    then show ?thesis using Suc by (simp add: opt_list_def)
  next
    case (Some e)
    then have "source_id e = Suc N" by (rule assms)
    then show ?thesis using Some Suc by (simp add: opt_list_def)
  qed
qed

lemma reorderCitations_ids:
  "map source_id (reorderCitations cs m) =
     map Suc (filter (\<lambda>i. hit m cs i \<noteq> None)
       [0..<length (fold (place m) cs (replicate (length (remdups (map fst m))) None))])"
  unfolding reorderCitations_slots by (rule ids_of_slots) (rule hit_source_id)

lemma reorderCitations_sorted: "sorted_wrt (<) (map source_id (reorderCitations cs m))"
proof -
  have "sorted_wrt (<) (filter (\<lambda>i. hit m cs i \<noteq> None)
       [0..<length (fold (place m) cs (replicate (length (remdups (map fst m))) None))])"
    by (rule sorted_wrt_filter) simp
  then show ?thesis
    unfolding reorderCitations_ids by (simp add: sorted_wrt_map)
qed

lemma reorderCitations_id_set:
  "set (map source_id (reorderCitations cs m))
     = {n. 0 < n \<and> (\<exists>c \<in> set cs. map_of m (source_id c) = Some n)}"
proof -
  let ?N = "length (fold (place m) cs (replicate (length (remdups (map fst m))) None))"
  have "set (map source_id (reorderCitations cs m)) = Suc ` {i. i < ?N \<and> hit m cs i \<noteq> None}"
    unfolding reorderCitations_ids by auto
  also have "{i. i < ?N \<and> hit m cs i \<noteq> None} = {i. hit m cs i \<noteq> None}"
    using hit_within by blast
  also have "Suc ` {i. hit m cs i \<noteq> None}
               = {n. 0 < n \<and> (\<exists>c \<in> set cs. map_of m (source_id c) = Some n)}"
  proof (intro set_eqI iffI)
    fix n assume "n \<in> Suc ` {i. hit m cs i \<noteq> None}"
    then show "n \<in> {n. 0 < n \<and> (\<exists>c \<in> set cs. map_of m (source_id c) = Some n)}"
      by (auto simp: hit_None_iff)
  next
    fix n assume "n \<in> {n. 0 < n \<and> (\<exists>c \<in> set cs. map_of m (source_id c) = Some n)}"
    then obtain i where "n = Suc i" and "\<exists>c \<in> set cs. map_of m (source_id c) = Some (Suc i)"
      by (cases n) auto
    then show "n \<in> Suc ` {i. hit m cs i \<noteq> None}"
      by (simp add: hit_None_iff)
  qed
  finally show ?thesis .
qed

lemma reorderCitations_origin:
  assumes "e \<in> set (reorderCitations cs m)"
  shows "\<exists>c \<in> set cs. map_of m (source_id c) = Some (source_id e) \<and> e = c\<lparr>source_id := source_id e\<rparr>"
proof -
  from assms obtain i where "e \<in> set (opt_list (hit m cs i))"
    unfolding reorderCitations_slots by auto
  then have h: "hit m cs i = Some e" by (cases "hit m cs i") (simp_all add: opt_list_def)
  then have "source_id e = Suc i" by (rule hit_source_id)
  with hit_SomeD [OF h] show ?thesis by auto
qed

lemma defined_elems_filter: "map Some (defined_elems arr) = filter (\<lambda>c. c \<noteq> None) arr"
proof (induction arr)
  case Nil
  show ?case by (simp add: defined_elems_def)
next
  case (Cons a arr)
  then show ?case by (cases a) (simp_all add: defined_elems_def)
qed

lemma reorderCitations_no_citations: "reorderCitations [] m = []"
proof -
  have "\<And>n. defined_elems (replicate n (None :: citation option)) = []"
    by (simp add: defined_elems_def)
  then show ?thesis by (simp add: reorderCitations_def)
qed

text \<open>
  C8. \<^verbatim>\<open>reorderCitations\<close> has no failing step: it reads properties of citation objects and
  of the map, writes array slots and filters. Its result is the array \<^verbatim>\<open>newCitations\<close> with
  the undefined slots removed and nothing else changed, so it has no gaps. The new numbers
  of the result are strictly ascending (each citation sits where its new number puts it), they
  are exactly the positive numbers to which the map sends the old number of some extracted
  citation, and every element is an extracted citation with its number rewritten. A mapped
  number without an extracted citation contributes nothing; with no citations at all the
  result is empty.
\<close>

theorem reorderCitations_dense:
  "sorted_wrt (<) (map source_id (reorderCitations cs m))
   \<and> set (map source_id (reorderCitations cs m))
       = {n. 0 < n \<and> (\<exists>c \<in> set cs. map_of m (source_id c) = Some n)}
   \<and> (\<forall>e \<in> set (reorderCitations cs m).
         \<exists>c \<in> set cs. map_of m (source_id c) = Some (source_id e)
                       \<and> e = c\<lparr>source_id := source_id e\<rparr>)
   \<and> map Some (reorderCitations cs m)
       = filter (\<lambda>c. c \<noteq> None)
           (fold (place m) cs (replicate (length (remdups (map fst m))) None))
   \<and> reorderCitations [] m = []"
proof (intro conjI ballI)
  show "sorted_wrt (<) (map source_id (reorderCitations cs m))"
    by (rule reorderCitations_sorted)
  show "set (map source_id (reorderCitations cs m))
       = {n. 0 < n \<and> (\<exists>c \<in> set cs. map_of m (source_id c) = Some n)}"
    by (rule reorderCitations_id_set)
  show "map Some (reorderCitations cs m)
       = filter (\<lambda>c. c \<noteq> None)
           (fold (place m) cs (replicate (length (remdups (map fst m))) None))"
    by (simp add: reorderCitations_def Let_def defined_elems_filter)
  show "reorderCitations [] m = []" by (rule reorderCitations_no_citations)
next
  fix e assume "e \<in> set (reorderCitations cs m)"
  then show "\<exists>c \<in> set cs. map_of m (source_id c) = Some (source_id e)
                       \<and> e = c\<lparr>source_id := source_id e\<rparr>"
    by (rule reorderCitations_origin)
qed

text \<open>A map with an entry (5 to 1) that has no extracted citation: the entry is skipped.\<close>

theorem reorderCitations_dense_witness:
  "reorderCitations [\<lparr>content = ''levee breach'', metadata = \<lparr>title = None, url = None\<rparr>, source_id = 2\<rparr>]
       [(5, 1), (2, 2)]
     = [\<lparr>content = ''levee breach'', metadata = \<lparr>title = None, url = None\<rparr>, source_id = 2\<rparr>]
   \<and> set (map source_id (reorderCitations
        [\<lparr>content = ''levee breach'', metadata = \<lparr>title = None, url = None\<rparr>, source_id = 2\<rparr>]
        [(5, 1), (2, 2)])) = {2}"
proof -
  let ?cs = "[\<lparr>content = ''levee breach'', metadata = \<lparr>title = None, url = None\<rparr>, source_id = 2\<rparr>]"
  have r: "reorderCitations ?cs [(5, 1), (2, 2)] = ?cs"
    by (simp add: reorderCitations_def place_def array_set_def defined_elems_def)
  have "set (map source_id (reorderCitations ?cs [(5, 1), (2, 2)]))
          = {n. 0 < n \<and> (\<exists>c \<in> set ?cs. map_of [(5, 1), (2, 2)] (source_id c) = Some n)}"
    using reorderCitations_dense [of ?cs "[(5, 1), (2, 2)]"] by blast
  also have "\<dots> = {2}" by auto
  finally show ?thesis using r by simp
qed

section \<open>Extracting citations\<close>

lemma push_citations_ok:
  "0 \<notin> set ns \<Longrightarrow>
   push_citations docs ns acc = Inr (acc @ map (cite docs) (filter (\<lambda>n. n \<le> length docs) ns))"
proof (induction ns arbitrary: acc)
  case Nil
  show ?case by simp
next
  case (Cons n ns)
  then have n: "0 < n" and ns: "0 \<notin> set ns" by auto
  show ?case
  proof (cases "n \<le> length docs")
    case True
    then have "array_get docs (int n - 1) = Some (docs ! (n - 1))"
      using n by (auto simp: array_get_def nat_diff_distrib)
    then show ?thesis using True Cons.IH [OF ns] by (simp add: cite_def)
  next
    case False
    then show ?thesis using Cons.IH [OF ns] by simp
  qed
qed

lemma push_citations_zero:
  "0 \<in> set ns \<Longrightarrow> push_citations docs ns acc = Inl TypeError"
proof (induction ns arbitrary: acc)
  case Nil
  then show ?case by simp
next
  case (Cons n ns)
  show ?case
  proof (cases "n = 0")
    case True
    then show ?thesis by (simp add: array_get_def)
  next
    case False
    with Cons.prems have "0 \<in> set ns" by simp
    then have "\<And>acc. push_citations docs ns acc = Inl TypeError" by (rule Cons.IH)
    then show ?thesis by (simp split: option.splits)
  qed
qed

lemma set_add_fold:
  "distinct acc \<Longrightarrow> distinct (fold set_add xs acc) \<and> set (fold set_add xs acc) = set acc \<union> set xs"
proof (induction xs arbitrary: acc)
  case Nil
  then show ?case by simp
next
  case (Cons x xs)
  have "distinct (set_add x acc)" using Cons.prems by (simp add: set_add_def)
  from Cons.IH [OF this] show ?case by (auto simp: set_add_def split: if_splits)
qed

lemma cited_sorted:
  "sort (fold set_add xs []) = sorted_list_of_set (set xs)"
proof (rule sorted_distinct_set_unique)
  show "sorted (sort (fold set_add xs []))" by simp
  show "distinct (sort (fold set_add xs []))" using set_add_fold [of "[]" xs] by simp
  show "sorted (sorted_list_of_set (set xs))" by simp
  show "distinct (sorted_list_of_set (set xs))" by simp
  show "set (sort (fold set_add xs [])) = set (sorted_list_of_set (set xs))"
    using set_add_fold [of "[]" xs] by simp
qed

lemma extractCitations_ok:
  assumes "0 \<notin> set (map parseInt (markers t))"
  shows "extractCitations t docs =
           Inr (map (cite docs) (filter (\<lambda>n. n \<le> length docs)
                  (sorted_list_of_set (set (map parseInt (markers t))))))"
proof -
  have "0 \<notin> set (sorted_list_of_set (set (map parseInt (markers t))))"
    using assms by simp
  then show ?thesis
    by (simp add: extractCitations_def Let_def cited_sorted push_citations_ok del: set_map)
qed

lemma extractCitations_zero:
  assumes "0 \<in> set (map parseInt (markers t))"
  shows "extractCitations t docs = Inl TypeError"
proof -
  have "0 \<in> set (sorted_list_of_set (set (map parseInt (markers t))))"
    using assms by simp
  then show ?thesis
    by (simp add: extractCitations_def Let_def cited_sorted push_citations_zero del: set_map)
qed

text \<open>
  C2. A marker that reads 0 passes the only guard, \<^verbatim>\<open>sourceNum <= retrievedDocs.length\<close>,
  and the read of \<^verbatim>\<open>retrievedDocs[-1].content\<close> throws: the reference is not dropped
  silently. (Lemma \<open>extractCitations_ok\<close> gives the claimed result for every text without such
  a marker.)
\<close>

theorem extractCitations_marker_zero_throws:
  "extractCitations ''Rain fell [0].'' retrievedDocs = Inl TypeError"
proof -
  have "markers ''Rain fell [0].'' = [''0'']"
    by (simp add: markers_def is_digit_def)
  then have "0 \<in> set (map parseInt (markers ''Rain fell [0].''))"
    by (simp add: parseInt_def digit_val_def)
  then show ?thesis by (rule extractCitations_zero)
qed

section \<open>The whole post-processing\<close>

text \<open>
  C5. The generator returns "Flooding displaced residents [2][2][1]." over at least two
  retrieved documents: the answer becomes "Flooding displaced residents [1][1][2].", and the
  citations are the second document renumbered 1, then the first renumbered 2.
\<close>

theorem scenario_flooding:
  "generateAnswerWithCitations (ApiOk ''Flooding displaced residents [2][2][1].'') (d1 # d2 # rest)
     = Inr \<lparr>answer = ''Flooding displaced residents [1][1][2].'',
            citations = [\<lparr>content = content d2, metadata = metadata d2, source_id = 1\<rparr>,
                         \<lparr>content = content d1, metadata = metadata d1, source_id = 2\<rparr>],
            rawAnswer = ''Flooding displaced residents [2][2][1].''\<rparr>"
proof -
  let ?t = "''Flooding displaced residents [2][2][1].''"
  have m: "markers ?t = [''2'', ''2'', ''1'']"
    by (simp add: markers_def is_digit_def)
  have found: "map parseInt (markers ?t) = [2, 2, 1]"
    by (simp add: m parseInt_def digit_val_def)
  have ex: "extractCitations ?t (d1 # d2 # rest)
              = Inr [\<lparr>content = content d1, metadata = metadata d1, source_id = 1\<rparr>,
                     \<lparr>content = content d2, metadata = metadata d2, source_id = 2\<rparr>]"
    unfolding extractCitations_def found by (simp add: set_add_def array_get_def)
  have rn: "renumberCitations ?t = (''Flooding displaced residents [1][1][2].'', [(2, 1), (1, 2)])"
    unfolding renumberCitations_def found
    by (simp add: assign_def replace_markers_def is_digit_def new_marker_def new_number_def
          parseInt_def digit_val_def render.simps digit_char_def bracketed_def)
  have ro: "reorderCitations [\<lparr>content = content d1, metadata = metadata d1, source_id = 1\<rparr>,
                     \<lparr>content = content d2, metadata = metadata d2, source_id = 2\<rparr>] [(2, 1), (1, 2)]
             = [\<lparr>content = content d2, metadata = metadata d2, source_id = 1\<rparr>,
                \<lparr>content = content d1, metadata = metadata d1, source_id = 2\<rparr>]"
    by (simp add: reorderCitations_def place_def array_set_def defined_elems_def)
  show ?thesis
    by (simp only: generateAnswerWithCitations_def api_response.case ex rn ro sum.case prod.case)
qed

lemma mapping_distinct_keys: "distinct (map fst (snd (renumberCitations t)))"
  unfolding mapping_zip by (simp add: length_remdups_rev del: upt_Suc)

lemma mapping_length:
  "length (snd (renumberCitations t)) = length (remdups (map parseInt (markers t)))"
  unfolding mapping_zip by (simp add: length_remdups_rev del: upt_Suc)

lemma mapping_value_key:
  assumes "i < length (snd (renumberCitations t))"
  shows "\<exists>x \<in> set (map parseInt (markers t)). map_of (snd (renumberCitations t)) x = Some (Suc i)"
proof -
  let ?M = "snd (renumberCitations t)"
  let ?xs = "map parseInt (markers t)"
  let ?ks = "rev (remdups (rev ?xs))" and ?vs = "[1..<Suc (length (remdups ?xs))]"
  have len: "length ?ks = length ?vs" by (simp add: length_remdups_rev del: upt_Suc)
  have i: "i < length ?ks" using assms by (simp add: mapping_length length_remdups_rev)
  have d: "distinct ?ks" by simp
  have "map_of (zip ?ks ?vs) (?ks ! i) = Some (?vs ! i)"
    using len d i by (intro map_of_zip_nth) simp_all
  moreover have "?vs ! i = Suc i" using i by (simp add: length_remdups_rev del: upt_Suc)
  ultimately have a: "map_of (zip ?ks ?vs) (?ks ! i) = Some (Suc i)" by simp
  have "?ks ! i \<in> set ?ks" using i by (rule nth_mem)
  then have b: "?ks ! i \<in> set ?xs" by simp
  show ?thesis unfolding mapping_zip using a b by (rule_tac x = "?ks ! i" in bexI)
qed

lemma new_numbers_range:
  "list_all (\<lambda>k. 1 \<le> k \<and> k \<le> length (snd (renumberCitations t)))
     (map parseInt (markers (fst (renumberCitations t))))"
proof -
  let ?M = "snd (renumberCitations t)"
  have eq: "map parseInt (markers (fst (renumberCitations t)))
          = map (new_number ?M) (map parseInt (markers t))"
    by (simp add: markers_renumbered renumbered_digits_def parseInt_render comp_def)
  have "\<And>x. x \<in> set (map parseInt (markers t)) \<Longrightarrow>
          1 \<le> new_number ?M x \<and> new_number ?M x \<le> length ?M"
  proof -
    fix x assume "x \<in> set (map parseInt (markers t))"
    then obtain v where "map_of ?M x = Some v" and "1 \<le> v"
      and "v \<le> length (remdups (map parseInt (markers t)))"
      using mapping_lookup by blast
    then show "1 \<le> new_number ?M x \<and> new_number ?M x \<le> length ?M"
      by (simp add: new_number_def mapping_length)
  qed
  then show ?thesis unfolding eq list_all_iff by auto
qed

lemma new_numbers_cover:
  assumes "i < length (snd (renumberCitations t))"
  shows "Suc i \<in> set (map parseInt (markers (fst (renumberCitations t))))"
proof -
  let ?M = "snd (renumberCitations t)"
  have eq: "map parseInt (markers (fst (renumberCitations t)))
          = map (new_number ?M) (map parseInt (markers t))"
    by (simp add: markers_renumbered renumbered_digits_def parseInt_render comp_def)
  from mapping_value_key [OF assms] obtain x
    where x: "x \<in> set (map parseInt (markers t))" and "map_of ?M x = Some (Suc i)" by blast
  then have "new_number ?M x = Suc i" by (simp add: new_number_def)
  with x show ?thesis unfolding eq by force
qed

lemma reorder_in_range:
  assumes "in_range t docs"
  shows "reorderCitations
           (map (cite docs) (sorted_list_of_set (set (map parseInt (markers t)))))
           (snd (renumberCitations t))
         = map (\<lambda>i. the (hit (snd (renumberCitations t))
                         (map (cite docs) (sorted_list_of_set (set (map parseInt (markers t))))) i))
             [0..<length (snd (renumberCitations t))]"
proof -
  let ?M = "snd (renumberCitations t)"
  let ?xs = "map parseInt (markers t)"
  let ?cs = "map (cite docs) (sorted_list_of_set (set ?xs))"
  let ?n = "length ?M"
  let ?A = "fold (place ?M) ?cs (replicate (length (remdups (map fst ?M))) None)"
  have ids: "source_id ` set ?cs = set ?xs" by (auto simp: cite_def image_iff)
  have "length (remdups (map fst ?M)) = ?n"
    using mapping_distinct_keys [of t] by (simp add: distinct_remdups_id)
  then have nA: "?n \<le> length ?A" using length_fold_place [of "replicate ?n None" ?M ?cs] by simp
  have low: "hit ?M ?cs i \<noteq> None" if "i < ?n" for i
  proof -
    from mapping_value_key [OF that] obtain x
      where "x \<in> set ?xs" and x: "map_of ?M x = Some (Suc i)" by blast
    then obtain c where "c \<in> set ?cs" and "source_id c = x" using ids by (metis imageE)
    with x show ?thesis by (auto simp: hit_None_iff)
  qed
  have high: "hit ?M ?cs i = None" if "?n \<le> i" for i
  proof (rule ccontr)
    assume "hit ?M ?cs i \<noteq> None"
    then obtain c where "c \<in> set ?cs" and c: "map_of ?M (source_id c) = Some (Suc i)"
      by (auto simp: hit_None_iff)
    then have "source_id c \<in> set ?xs" using ids by blast
    then obtain v where "map_of ?M (source_id c) = Some v" and "v \<le> length (remdups ?xs)"
      using mapping_lookup by blast
    with c have "Suc i \<le> ?n" by (simp add: mapping_length)
    with that show False by simp
  qed
  have split: "[0..<length ?A] = [0..<?n] @ [?n..<length ?A]"
    using nA by (metis le_add_diff_inverse upt_add_eq_append zero_le)
  have hi: "concat (map (\<lambda>i. opt_list (hit ?M ?cs i)) [?n..<length ?A]) = []"
    using high by (simp add: opt_list_def)
  have lo: "map (\<lambda>i. opt_list (hit ?M ?cs i)) [0..<?n] = map (\<lambda>i. [the (hit ?M ?cs i)]) [0..<?n]"
  proof (rule map_cong [OF refl])
    fix i assume "i \<in> set [0..<?n]"
    then have "hit ?M ?cs i \<noteq> None" using low by simp
    then show "opt_list (hit ?M ?cs i) = [the (hit ?M ?cs i)]"
      by (cases "hit ?M ?cs i") (simp_all add: opt_list_def)
  qed
  have "reorderCitations ?cs ?M = concat (map (\<lambda>i. opt_list (hit ?M ?cs i)) [0..<length ?A])"
    by (rule reorderCitations_slots)
  also have "\<dots> = concat (map (\<lambda>i. opt_list (hit ?M ?cs i)) [0..<?n])"
    unfolding split using hi by simp
  also have "\<dots> = concat (map (\<lambda>i. [the (hit ?M ?cs i)]) [0..<?n])"
    unfolding lo ..
  also have "\<dots> = map (\<lambda>i. the (hit ?M ?cs i)) [0..<?n]"
    by (induction ?n) simp_all
  finally show ?thesis .
qed

lemma mapping_inj:
  assumes "map_of (snd (renumberCitations t)) a = Some v"
    and "map_of (snd (renumberCitations t)) b = Some v"
  shows "a = b"
proof -
  let ?M = "snd (renumberCitations t)"
  let ?xs = "map parseInt (markers t)"
  let ?ks = "rev (remdups (rev ?xs))" and ?vs = "[1..<Suc (length (remdups ?xs))]"
  have len: "length ?ks = length ?vs" by (simp add: length_remdups_rev del: upt_Suc)
  have "map snd (zip ?ks ?vs) = ?vs" using len by (simp only: map_snd_zip)
  then have "distinct (map snd ?M)" unfolding mapping_zip by (simp only: distinct_upt)
  then have inj: "inj_on snd (set ?M)" by (simp add: distinct_map)
  from assms have "(a, v) \<in> set ?M" and "(b, v) \<in> set ?M" by (auto dest: map_of_SomeD)
  moreover have "snd (a, v) = snd (b, v)" by simp
  ultimately have "(a, v) = (b, v)" using inj by (meson inj_onD)
  then show ?thesis by simp
qed

lemma hit_in_range:
  assumes x: "x \<in> set (map parseInt (markers t))"
    and k: "map_of (snd (renumberCitations t)) x = Some (Suc i)"
  shows "hit (snd (renumberCitations t))
           (map (cite docs) (sorted_list_of_set (set (map parseInt (markers t))))) i
         = Some ((cite docs x)\<lparr>source_id := Suc i\<rparr>)"
proof -
  let ?M = "snd (renumberCitations t)"
  let ?cs = "map (cite docs) (sorted_list_of_set (set (map parseInt (markers t))))"
  have "cite docs x \<in> set ?cs" using x by simp
  moreover have "source_id (cite docs x) = x" by (simp add: cite_def)
  ultimately have "hit ?M ?cs i \<noteq> None" using k by (auto simp: hit_None_iff)
  then obtain e where e: "hit ?M ?cs i = Some e" by auto
  from hit_SomeD [OF e] obtain c where c: "c \<in> set ?cs"
    and kc: "map_of ?M (source_id c) = Some (Suc i)" and ee: "e = c\<lparr>source_id := Suc i\<rparr>"
    by blast
  from c obtain y where y: "c = cite docs y" by auto
  then have "source_id c = y" by (simp add: cite_def)
  with kc k have "y = x" using mapping_inj by blast
  with y ee e show ?thesis by simp
qed

lemma mapping_value_bound:
  assumes "map_of (snd (renumberCitations t)) x = Some v"
  shows "1 \<le> v \<and> v \<le> length (snd (renumberCitations t))"
proof -
  let ?xs = "map parseInt (markers t)"
  let ?ks = "rev (remdups (rev ?xs))" and ?vs = "[1..<Suc (length (remdups ?xs))]"
  from assms have "(x, v) \<in> set (zip ?ks ?vs)"
    unfolding mapping_zip by (rule map_of_SomeD)
  then have "v \<in> set ?vs" by (rule set_zip_rightD)
  then show ?thesis by (simp add: mapping_length del: upt_Suc)
qed

lemma ascending_above:
  "sorted_wrt (<) xs \<Longrightarrow> \<forall>x \<in> set xs. k < x \<Longrightarrow> i < length xs \<Longrightarrow> k + Suc i \<le> (xs :: nat list) ! i"
proof (induction xs arbitrary: i k)
  case Nil
  then show ?case by simp
next
  case (Cons x xs)
  show ?case
  proof (cases i)
    case 0
    then show ?thesis using Cons.prems(2) by simp
  next
    case (Suc j)
    have "sorted_wrt (<) xs" and "\<forall>y \<in> set xs. x < y" using Cons.prems(1) by simp_all
    moreover have "j < length xs" using Cons.prems(3) Suc by simp
    ultimately have "x + Suc j \<le> xs ! j" by (rule Cons.IH)
    moreover have "k < x" using Cons.prems(2) by simp
    ultimately show ?thesis using Suc by simp
  qed
qed

lemma ascending_from_one:
  "sorted_wrt (<) xs \<Longrightarrow> \<forall>x \<in> set xs. 0 < x \<Longrightarrow> i < length xs \<Longrightarrow> Suc i \<le> (xs :: nat list) ! i"
  using ascending_above [of xs 0 i] by simp

lemma reorder_no_orphans:
  "no_orphans \<lparr>answer = fst (renumberCitations t),
               citations = reorderCitations cs (snd (renumberCitations t)), rawAnswer = t\<rparr>"
proof -
  let ?M = "snd (renumberCitations t)"
  let ?res = "reorderCitations cs ?M"
  let ?nums = "map parseInt (markers (fst (renumberCitations t)))"
  have bound: "1 \<le> source_id e \<and> source_id e \<le> length ?M" if "e \<in> set ?res" for e
  proof -
    from reorderCitations_origin [OF that] obtain c :: citation
      where "map_of ?M (source_id c) = Some (source_id e)" by blast
    then show ?thesis by (rule mapping_value_bound)
  qed
  have ids: "source_id e \<in> set ?nums" if "e \<in> set ?res" for e
  proof -
    from bound [OF that] obtain i where "source_id e = Suc i" and "i < length ?M"
      by (cases "source_id e") auto
    then show ?thesis using new_numbers_cover [of i t] by simp
  qed
  have idx: "Suc i \<in> set ?nums" if "i < length ?res" for i
  proof -
    have "sorted_wrt (<) (map source_id ?res)" by (rule reorderCitations_sorted)
    moreover have "\<forall>x \<in> set (map source_id ?res). 0 < x" using bound by fastforce
    moreover have "i < length (map source_id ?res)" using that by simp
    ultimately have "Suc i \<le> map source_id ?res ! i" by (rule ascending_from_one)
    then have "Suc i \<le> source_id (?res ! i)" using that by simp
    moreover have "source_id (?res ! i) \<le> length ?M" using bound that by simp
    ultimately have "i < length ?M" by simp
    then show ?thesis by (rule new_numbers_cover)
  qed
  show ?thesis using ids idx by (simp add: no_orphans_def list_all_iff)
qed

lemma generate_result:
  assumes "generateAnswerWithCitations (ApiOk t) docs = Inr r"
  shows "\<exists>cs. r = \<lparr>answer = fst (renumberCitations t),
                   citations = reorderCitations cs (snd (renumberCitations t)), rawAnswer = t\<rparr>"
  using assms
  by (auto simp: generateAnswerWithCitations_def split_beta split: sum.splits)

lemma pipeline_no_orphans:
  assumes "generateAnswerWithCitations (ApiOk t) docs = Inr r"
  shows "no_orphans r"
proof -
  from generate_result [OF assms] obtain cs
    where "r = \<lparr>answer = fst (renumberCitations t),
                 citations = reorderCitations cs (snd (renumberCitations t)), rawAnswer = t\<rparr>"
    by blast
  then show ?thesis using reorder_no_orphans [of t cs] by simp
qed

lemma closed_in_range:
  assumes "in_range t docs"
  shows "\<exists>r. generateAnswerWithCitations (ApiOk t) docs = Inr r
             \<and> closed_result r
             \<and> answer r = fst (renumberCitations t) \<and> rawAnswer r = t
             \<and> map source_id (citations r) = [1..<Suc (length (citations r))]
             \<and> list_all (\<lambda>x. citations r ! (new_number (snd (renumberCitations t)) x - 1)
                           = (cite docs x)\<lparr>source_id := new_number (snd (renumberCitations t)) x\<rparr>)
                 (map parseInt (markers t))"
proof -
  let ?M = "snd (renumberCitations t)"
  let ?xs = "map parseInt (markers t)"
  let ?cs = "map (cite docs) (sorted_list_of_set (set ?xs))"
  let ?n = "length ?M"
  let ?r = "\<lparr>answer = fst (renumberCitations t), citations = reorderCitations ?cs ?M,
             rawAnswer = t\<rparr>"
  have rng: "\<And>x. x \<in> set ?xs \<Longrightarrow> 1 \<le> x \<and> x \<le> length docs"
    using assms unfolding in_range_def list_all_iff by blast
  then have "0 \<notin> set ?xs" by fastforce
  then have "extractCitations t docs =
      Inr (map (cite docs) (filter (\<lambda>n. n \<le> length docs) (sorted_list_of_set (set ?xs))))"
    by (rule extractCitations_ok)
  moreover have "filter (\<lambda>n. n \<le> length docs) (sorted_list_of_set (set ?xs))
                  = sorted_list_of_set (set ?xs)"
    using rng by (simp add: filter_id_conv del: set_map)
  ultimately have ex: "extractCitations t docs = Inr ?cs" by simp
  have run: "generateAnswerWithCitations (ApiOk t) docs = Inr ?r"
    by (simp add: generateAnswerWithCitations_def ex split_beta)
  have cits: "citations ?r = map (\<lambda>i. the (hit ?M ?cs i)) [0..<?n]"
    using reorder_in_range [OF assms] by simp
  then have len: "length (citations ?r) = ?n" by simp
  have closed: "closed_result ?r"
    unfolding closed_result_def
  proof
    show "no_dangling ?r"
      unfolding no_dangling_def len using new_numbers_range [of t] by simp
    show "no_orphans ?r" using run by (rule pipeline_no_orphans)
  qed
  have ids: "map source_id (citations ?r) = [1..<Suc (length (citations ?r))]"
  proof -
    have "map (source_id \<circ> (\<lambda>i. the (hit ?M ?cs i))) [0..<?n] = map Suc [0..<?n]"
    proof (rule map_cong [OF refl])
      fix i assume "i \<in> set [0..<?n]"
      then have "i < ?n" by simp
      from mapping_value_key [OF this] obtain x
        where "x \<in> set ?xs" and "map_of ?M x = Some (Suc i)" by blast
      then have "hit ?M ?cs i = Some ((cite docs x)\<lparr>source_id := Suc i\<rparr>)"
        by (rule hit_in_range)
      then show "(source_id \<circ> (\<lambda>i. the (hit ?M ?cs i))) i = Suc i" by simp
    qed
    then have "map source_id (citations ?r) = map Suc [0..<?n]"
      unfolding cits by (simp only: map_map)
    also have "\<dots> = [1..<Suc ?n]" by (simp only: map_Suc_upt One_nat_def)
    finally show ?thesis by (simp only: len)
  qed
  have docs: "list_all (\<lambda>x. citations ?r ! (new_number ?M x - 1)
                           = (cite docs x)\<lparr>source_id := new_number ?M x\<rparr>) ?xs"
    unfolding list_all_iff
  proof
    fix x assume x: "x \<in> set ?xs"
    then obtain v where v: "map_of ?M x = Some v" and v1: "1 \<le> v"
      and vn: "v \<le> length (remdups ?xs)"
      using mapping_lookup by blast
    then obtain i where i: "v = Suc i" by (cases v) auto
    have nn: "new_number ?M x = Suc i" using v i by (simp add: new_number_def)
    have "i < ?n" using vn i by (simp add: mapping_length)
    then have "citations ?r ! i = the (hit ?M ?cs i)" unfolding cits by simp
    also have "hit ?M ?cs i = Some ((cite docs x)\<lparr>source_id := Suc i\<rparr>)"
      using x v unfolding i by (rule hit_in_range)
    finally show "citations ?r ! (new_number ?M x - 1)
                    = (cite docs x)\<lparr>source_id := new_number ?M x\<rparr>"
      by (simp add: nn)
  qed
  show ?thesis
    using run closed ids docs by (intro exI [of _ ?r]) simp
qed

text \<open>
  C1, as amended. Whenever the post-processing of a raw answer returns a result, the result
  has no orphan citations: every entry of \<open>citations\<close> is referenced by a marker of the answer.
  When, in addition, every marker of the raw answer names a retrieved document (its number
  lies between 1 and the number of retrieved documents), the post-processing does return a
  result, and this result has no dangling markers either: every marker \<open>[k]\<close> of the answer has
  its entry \<open>citations[k-1]\<close>, the entries are numbered \<open>1, ..., n\<close> in order, and the entry of a
  marker is the retrieved document that the marker named in the raw answer.
\<close>

theorem pipeline_closure:
  "(\<forall>r. generateAnswerWithCitations (ApiOk t) docs = Inr r \<longrightarrow> no_orphans r)
   \<and> (in_range t docs \<longrightarrow>
        (\<exists>r. generateAnswerWithCitations (ApiOk t) docs = Inr r
             \<and> closed_result r
             \<and> answer r = fst (renumberCitations t) \<and> rawAnswer r = t
             \<and> map source_id (citations r) = [1..<Suc (length (citations r))]
             \<and> list_all (\<lambda>x. citations r ! (new_number (snd (renumberCitations t)) x - 1)
                           = (cite docs x)\<lparr>source_id := new_number (snd (renumberCitations t)) x\<rparr>)
                 (map parseInt (markers t))))"
proof (intro conjI allI impI)
  fix r assume "generateAnswerWithCitations (ApiOk t) docs = Inr r"
  then show "no_orphans r" by (rule pipeline_no_orphans)
next
  assume "in_range t docs"
  then show "\<exists>r. generateAnswerWithCitations (ApiOk t) docs = Inr r
             \<and> closed_result r
             \<and> answer r = fst (renumberCitations t) \<and> rawAnswer r = t
             \<and> map source_id (citations r) = [1..<Suc (length (citations r))]
             \<and> list_all (\<lambda>x. citations r ! (new_number (snd (renumberCitations t)) x - 1)
                           = (cite docs x)\<lparr>source_id := new_number (snd (renumberCitations t)) x\<rparr>)
                 (map parseInt (markers t))"
    by (rule closed_in_range)
qed

text \<open>An answer with a marker that names no retrieved document still has no orphan citation;
  an answer whose markers all name retrieved documents is closed.\<close>

theorem pipeline_closure_witness:
  "generateAnswerWithCitations (ApiOk ''Rain [7], wind [1].'') [doc_a, doc_b]
     = Inr \<lparr>answer = ''Rain [1], wind [2].'',
            citations = [\<lparr>content = ''levee breach'',
                           metadata = \<lparr>title = Some ''Report A'', url = None\<rparr>, source_id = 2\<rparr>],
            rawAnswer = ''Rain [7], wind [1].''\<rparr>
   \<and> no_orphans \<lparr>answer = ''Rain [1], wind [2].'',
            citations = [\<lparr>content = ''levee breach'',
                           metadata = \<lparr>title = Some ''Report A'', url = None\<rparr>, source_id = 2\<rparr>],
            rawAnswer = ''Rain [7], wind [1].''\<rparr>
   \<and> in_range ''Water rose [2]. Shelters opened [1][2].'' [doc_a, doc_b]
   \<and> (\<exists>r. generateAnswerWithCitations (ApiOk ''Water rose [2]. Shelters opened [1][2].'')
              [doc_a, doc_b] = Inr r
          \<and> closed_result r
          \<and> map source_id (citations r) = [1..<Suc (length (citations r))])"
proof -
  let ?t = "''Rain [7], wind [1].''"
  have m1: "markers ?t = [''7'', ''1'']" by (simp add: markers_def is_digit_def)
  have found: "map parseInt (markers ?t) = [7, 1]"
    by (simp add: m1 parseInt_def digit_val_def)
  have ex: "extractCitations ?t [doc_a, doc_b]
              = Inr [\<lparr>content = ''levee breach'',
                      metadata = \<lparr>title = Some ''Report A'', url = None\<rparr>, source_id = 1\<rparr>]"
    unfolding extractCitations_def found by (simp add: set_add_def array_get_def doc_a_def)
  have rn: "renumberCitations ?t = (''Rain [1], wind [2].'', [(7, 1), (1, 2)])"
    unfolding renumberCitations_def found
    by (simp add: assign_def replace_markers_def is_digit_def new_marker_def new_number_def
          parseInt_def digit_val_def render.simps digit_char_def bracketed_def)
  have ro: "reorderCitations [\<lparr>content = ''levee breach'',
                      metadata = \<lparr>title = Some ''Report A'', url = None\<rparr>, source_id = 1\<rparr>]
              [(7, 1), (1, 2)]
             = [\<lparr>content = ''levee breach'',
                  metadata = \<lparr>title = Some ''Report A'', url = None\<rparr>, source_id = 2\<rparr>]"
    by (simp add: reorderCitations_def place_def array_set_def defined_elems_def)
  have run: "generateAnswerWithCitations (ApiOk ?t) [doc_a, doc_b]
     = Inr \<lparr>answer = ''Rain [1], wind [2].'',
            citations = [\<lparr>content = ''levee breach'',
                           metadata = \<lparr>title = Some ''Report A'', url = None\<rparr>, source_id = 2\<rparr>],
            rawAnswer = ?t\<rparr>"
    by (simp only: generateAnswerWithCitations_def api_response.case ex rn ro sum.case prod.case)
  note c = pipeline_closure [of ?t "[doc_a, doc_b]"]
  from c run have orph: "no_orphans \<lparr>answer = ''Rain [1], wind [2].'',
            citations = [\<lparr>content = ''levee breach'',
                           metadata = \<lparr>title = Some ''Report A'', url = None\<rparr>, source_id = 2\<rparr>],
            rawAnswer = ?t\<rparr>"
    by blast
  have m: "markers ''Water rose [2]. Shelters opened [1][2].'' = [''2'', ''1'', ''2'']"
    by (simp add: markers_def is_digit_def)
  have h: "in_range ''Water rose [2]. Shelters opened [1][2].'' [doc_a, doc_b]"
    by (simp add: in_range_def m parseInt_def digit_val_def)
  from pipeline_closure [of "''Water rose [2]. Shelters opened [1][2].''" "[doc_a, doc_b]"] h
  have "\<exists>r. generateAnswerWithCitations (ApiOk ''Water rose [2]. Shelters opened [1][2].'')
              [doc_a, doc_b] = Inr r
          \<and> closed_result r
          \<and> map source_id (citations r) = [1..<Suc (length (citations r))]"
    by blast
  then show ?thesis using run orph h by simp
qed

text \<open>
  C1, as stated, fails: a marker that names no retrieved document is renumbered like any
  other, but has no citation. With one retrieved document and the raw answer "See [2]." the
  answer reads "See [1]." and the citation list is empty.
\<close>

theorem dangling_marker_counterexample:
  "generateAnswerWithCitations (ApiOk ''See [2].'') [doc_a]
     = Inr \<lparr>answer = ''See [1].'', citations = [], rawAnswer = ''See [2].''\<rparr>
   \<and> \<not> closed_result \<lparr>answer = ''See [1].'', citations = [], rawAnswer = ''See [2].''\<rparr>"
proof
  have m: "markers ''See [2].'' = [''2'']" by (simp add: markers_def is_digit_def)
  have found: "map parseInt (markers ''See [2].'') = [2]"
    by (simp add: m parseInt_def digit_val_def)
  have ex: "extractCitations ''See [2].'' [doc_a] = Inr []"
    unfolding extractCitations_def found by (simp add: set_add_def)
  have rn: "renumberCitations ''See [2].'' = (''See [1].'', [(2, 1)])"
    unfolding renumberCitations_def found
    by (simp add: assign_def replace_markers_def is_digit_def new_marker_def new_number_def
          parseInt_def digit_val_def render.simps digit_char_def bracketed_def)
  have ro: "reorderCitations [] [(2, 1)] = []"
    by (simp add: reorderCitations_def defined_elems_def)
  show "generateAnswerWithCitations (ApiOk ''See [2].'') [doc_a]
     = Inr \<lparr>answer = ''See [1].'', citations = [], rawAnswer = ''See [2].''\<rparr>"
    by (simp only: generateAnswerWithCitations_def api_response.case ex rn ro sum.case prod.case)
  have "markers ''See [1].'' = [''1'']" by (simp add: markers_def is_digit_def)
  then show "\<not> closed_result \<lparr>answer = ''See [1].'', citations = [], rawAnswer = ''See [2].''\<rparr>"
    by (simp add: closed_result_def no_dangling_def parseInt_def digit_val_def)
qed

section \<open>Ranking\<close>

lemma ranks_before_trans: "ranks_before p q \<Longrightarrow> ranks_before q r \<Longrightarrow> ranks_before p r"
  by (auto simp: ranks_before_def)

lemma set_insert_by: "set (insert_by cmp x ys) = insert x (set ys)"
  by (induction ys) auto

lemma length_insert_by: "length (insert_by cmp x ys) = Suc (length ys)"
  by (induction ys) auto

lemma set_sort_by: "set (sort_by cmp xs) = set xs"
  by (induction xs) (simp_all add: set_insert_by)

lemma length_sort_by: "length (sort_by cmp xs) = length xs"
  by (induction xs) (simp_all add: length_insert_by)

lemma descending_le:
  "fst x = Some a \<Longrightarrow> fst y = Some b \<Longrightarrow> (descending x y \<le> 0) = (b \<le> a)"
  by (simp add: descending_def)

lemma sorted_insert_by:
  assumes "sorted_wrt ranks_before ys" and "\<forall>y \<in> set ys. snd x < snd y"
    and "fst x \<noteq> None" and "\<forall>y \<in> set ys. fst y \<noteq> None"
  shows "sorted_wrt ranks_before (insert_by descending x ys)"
  using assms
proof (induction ys)
  case Nil
  show ?case by simp
next
  case (Cons y ys)
  from Cons.prems obtain a b where a: "fst x = Some a" and b: "fst y = Some b" by auto
  show ?case
  proof (cases "b \<le> a")
    case True
    then have xy: "ranks_before x y" using a b Cons.prems(2) by (auto simp: ranks_before_def)
    have "\<forall>z \<in> set ys. ranks_before x z"
    proof
      fix z assume "z \<in> set ys"
      then have "ranks_before y z" using Cons.prems(1) by simp
      with xy show "ranks_before x z" by (rule ranks_before_trans)
    qed
    then show ?thesis using True xy Cons.prems(1) a b by (simp add: descending_le)
  next
    case False
    then have yx: "ranks_before y x" using a b by (simp add: ranks_before_def)
    have ih: "sorted_wrt ranks_before (insert_by descending x ys)"
      using Cons.prems by (intro Cons.IH) auto
    have "\<forall>z \<in> set (insert_by descending x ys). ranks_before y z"
      using yx Cons.prems(1) by (auto simp: set_insert_by)
    then show ?thesis using False ih a b by (simp add: descending_le)
  qed
qed

lemma sorted_sort_by:
  assumes "sorted_wrt (<) (map snd ps)" and "\<forall>p \<in> set ps. fst p \<noteq> None"
  shows "sorted_wrt ranks_before (sort_by descending ps)"
  using assms
proof (induction ps)
  case Nil
  show ?case by simp
next
  case (Cons p ps)
  have "sorted_wrt ranks_before (sort_by descending ps)" using Cons by simp
  moreover have "\<forall>y \<in> set (sort_by descending ps). snd p < snd y"
    using Cons.prems(1) by (auto simp: set_sort_by)
  moreover have "fst p \<noteq> None" using Cons.prems(2) by simp
  moreover have "\<forall>y \<in> set (sort_by descending ps). fst y \<noteq> None"
    using Cons.prems(2) by (simp add: set_sort_by)
  ultimately show ?case by (simp add: sorted_insert_by)
qed

lemma sorted_wrt_irrefl_distinct': "sorted_wrt P xs \<Longrightarrow> (\<And>x. \<not> P x x) \<Longrightarrow> distinct xs"
  by (induction xs) auto

lemma better_irrefl: "\<not> better scores i i"
  by (simp add: better_def ranks_before_def)

lemma zip_upt_elem:
  "p \<in> set (zip scores [0..<length scores]) \<Longrightarrow> snd p < length scores \<and> p = (scores ! snd p, snd p)"
  by (cases p) (auto simp: set_zip)

lemma order_sorted:
  assumes "list_all (\<lambda>s. s \<noteq> None) scores"
  shows "sorted_wrt (better scores) (map snd (sort_by descending (zip scores [0..<length scores])))"
    and "set (map snd (sort_by descending (zip scores [0..<length scores]))) = {0..<length scores}"
    and "length (map snd (sort_by descending (zip scores [0..<length scores]))) = length scores"
proof -
  let ?ps = "zip scores [0..<length scores]"
  have snd_ps: "map snd ?ps = [0..<length scores]" by simp
  have some: "\<forall>p \<in> set ?ps. fst p \<noteq> None"
    using assms by (auto simp: list_all_iff dest: set_zip_leftD)
  have "sorted_wrt (<) (map snd ?ps)" unfolding snd_ps by simp
  then have srt: "sorted_wrt ranks_before (sort_by descending ?ps)"
    using some by (rule sorted_sort_by)
  have "sorted_wrt (\<lambda>p q. better scores (snd p) (snd q)) (sort_by descending ?ps)"
  proof (rule sorted_wrt_mono_rel [OF _ srt])
    fix p q assume "p \<in> set (sort_by descending ?ps)" and "q \<in> set (sort_by descending ?ps)"
      and r: "ranks_before p q"
    then have "p \<in> set ?ps" and "q \<in> set ?ps" by (simp_all add: set_sort_by)
    then have "p = (scores ! snd p, snd p)" and "q = (scores ! snd q, snd q)"
      by (simp_all only: zip_upt_elem)
    with r show "better scores (snd p) (snd q)" by (simp add: better_def)
  qed
  then show "sorted_wrt (better scores) (map snd (sort_by descending ?ps))"
    by (simp add: sorted_wrt_map)
  have "set (map snd (sort_by descending ?ps)) = set (map snd ?ps)"
    by (simp only: set_map set_sort_by)
  also have "\<dots> = set [0..<length scores]" by (simp only: snd_ps)
  finally show "set (map snd (sort_by descending ?ps)) = {0..<length scores}"
    by (simp only: set_upt)
  show "length (map snd (sort_by descending ?ps)) = length scores"
    by (simp add: length_sort_by)
qed

lemma distinct_insert_by: "distinct (insert_by cmp x ys) = (x \<notin> set ys \<and> distinct ys)"
  by (induction ys) (auto simp: set_insert_by)

lemma distinct_sort_by: "distinct (sort_by cmp xs) = distinct xs"
  by (induction xs) (simp_all add: distinct_insert_by set_sort_by)

lemma order_indices:
  "distinct (map snd (sort_by descending (zip scores [0..<length scores])))"
  "set (map snd (sort_by descending (zip scores [0..<length scores]))) = {0..<length scores}"
  "length (map snd (sort_by descending (zip scores [0..<length scores]))) = length scores"
proof -
  let ?ps = "zip scores [0..<length scores]"
  have snd_ps: "map snd ?ps = [0..<length scores]" by simp
  have "distinct (map snd ?ps)" unfolding snd_ps by simp
  then have "distinct ?ps" and "inj_on snd (set ?ps)" by (simp_all only: distinct_map)
  then have "distinct (sort_by descending ?ps)" and "inj_on snd (set (sort_by descending ?ps))"
    by (simp_all only: distinct_sort_by set_sort_by)
  then show "distinct (map snd (sort_by descending ?ps))" by (simp only: distinct_map)
  have "set (map snd (sort_by descending ?ps)) = set (map snd ?ps)"
    by (simp only: set_map set_sort_by)
  also have "\<dots> = set [0..<length scores]" by (simp only: snd_ps)
  finally show "set (map snd (sort_by descending ?ps)) = {0..<length scores}"
    by (simp only: set_upt)
  show "length (map snd (sort_by descending ?ps)) = length scores"
    by (simp add: length_sort_by)
qed

lemma top_indices_take:
  "top_indices scores topK
     = take topK (map snd (sort_by descending (zip scores [0..<length scores])))"
  by (simp add: top_indices_def Let_def take_map)

lemma top_indices_shape:
  "length (top_indices scores topK) = min topK (length scores)"
  "distinct (top_indices scores topK)"
  "set (top_indices scores topK) \<subseteq> {0..<length scores}"
proof -
  let ?order = "map snd (sort_by descending (zip scores [0..<length scores]))"
  show "length (top_indices scores topK) = min topK (length scores)"
    unfolding top_indices_take using order_indices(3) [of scores] by simp
  show "distinct (top_indices scores topK)"
    unfolding top_indices_take using order_indices(1) [of scores] by (rule distinct_take)
  show "set (top_indices scores topK) \<subseteq> {0..<length scores}"
    unfolding top_indices_take using order_indices(2) [of scores] by (auto dest: in_set_takeD)
qed

lemma top_indices_props:
  assumes "list_all (\<lambda>s. s \<noteq> None) scores"
  shows "length (top_indices scores topK) = min topK (length scores)"
    and "sorted_wrt (better scores) (top_indices scores topK)"
    and "distinct (top_indices scores topK)"
    and "set (top_indices scores topK) \<subseteq> {0..<length scores}"
    and "\<forall>i \<in> set (top_indices scores topK). \<forall>j < length scores.
           j \<notin> set (top_indices scores topK) \<longrightarrow> better scores i j"
proof -
  let ?order = "map snd (sort_by descending (zip scores [0..<length scores]))"
  note o = order_sorted [OF assms]
  show "length (top_indices scores topK) = min topK (length scores)"
    unfolding top_indices_take using o(3) by simp
  show srt: "sorted_wrt (better scores) (top_indices scores topK)"
    unfolding top_indices_take using o(1) by (rule sorted_wrt_take)
  then show "distinct (top_indices scores topK)"
    by (rule sorted_wrt_irrefl_distinct') (rule better_irrefl)
  show "set (top_indices scores topK) \<subseteq> {0..<length scores}"
    unfolding top_indices_take using o(2) by (auto dest: in_set_takeD)
  show "\<forall>i \<in> set (top_indices scores topK). \<forall>j < length scores.
           j \<notin> set (top_indices scores topK) \<longrightarrow> better scores i j"
  proof (intro ballI allI impI)
    fix i j assume i: "i \<in> set (top_indices scores topK)" and j: "j < length scores"
      and nj: "j \<notin> set (top_indices scores topK)"
    have "j \<in> set ?order" using j o(2) by simp
    then have "j \<in> set (take topK ?order @ drop topK ?order)" by simp
    then have jd: "j \<in> set (drop topK ?order)"
      using nj unfolding top_indices_take by (simp only: set_append Un_iff) blast
    have "sorted_wrt (better scores) (take topK ?order @ drop topK ?order)"
      using o(1) by simp
    then have "\<forall>x \<in> set (take topK ?order). \<forall>y \<in> set (drop topK ?order). better scores x y"
      unfolding sorted_wrt_append by blast
    then show "better scores i j" using i jd unfolding top_indices_take by blast
  qed
qed

lemma top_documents_ok:
  assumes "\<forall>idx \<in> set idxs. idx < length docs"
  shows "top_documents docs scores idxs rank
           = Inr (map (\<lambda>(idx, r). ranked_doc docs scores idx r) (zip idxs [rank..<rank + length idxs]))"
  using assms
proof (induction idxs arbitrary: rank)
  case Nil
  show ?case by simp
next
  case (Cons idx idxs)
  then have g: "array_get docs (int idx) = Some (docs ! idx)"
    by (simp add: array_get_def)
  have ih: "top_documents docs scores idxs (rank + 1)
           = Inr (map (\<lambda>(idx, r). ranked_doc docs scores idx r)
                    (zip idxs [rank + 1..<rank + 1 + length idxs]))"
    using Cons.prems by (intro Cons.IH) simp
  have "[rank..<rank + length (idx # idxs)] = rank # [rank + 1..<rank + 1 + length idxs]"
    by (simp add: upt_conv_Cons del: upt_Suc)
  then show ?case using g ih by (simp add: ranked_doc_def del: upt_Suc)
qed

lemma snd_zip_upt: "map snd (zip xs [0..<length xs]) = [0..<length xs]"
  by simp

lemma fst_zip_upt: "map fst (zip xs [0..<length xs]) = xs"
  by simp

lemma top_documents_missing:
  assumes "\<not> (\<forall>idx \<in> set idxs. idx < length docs)"
  shows "top_documents docs scores idxs rank = Inl TypeError"
  using assms
proof (induction idxs arbitrary: rank)
  case Nil
  then show ?case by simp
next
  case (Cons idx idxs)
  show ?case
  proof (cases "idx < length docs")
    case False
    then show ?thesis by (simp add: array_get_def)
  next
    case True
    with Cons.prems have "\<not> (\<forall>idx \<in> set idxs. idx < length docs)" by simp
    then have "top_documents docs scores idxs (rank + 1) = Inl TypeError" by (rule Cons.IH)
    then show ?thesis using True by (simp add: array_get_def)
  qed
qed

lemma score_ge_better: "better scores i j \<Longrightarrow> scores ! i \<noteq> None \<Longrightarrow> scores ! j \<noteq> None
    \<Longrightarrow> score_ge (scores ! i) (scores ! j)"
  by (auto simp: better_def ranks_before_def score_ge_def)

text \<open>
  C4, as amended. For every corpus, query embedding and \<^verbatim>\<open>topK\<close>, \<^verbatim>\<open>retrieveDocuments\<close> computes the
  similarity of the query embedding to every corpus embedding and takes \<^verbatim>\<open>topIndices\<close>, the
  first \<open>min topK n\<close> indices of the ranking, \<open>n\<close> the number of embeddings; they are distinct
  indices of embeddings. It returns the documents at these indices with their similarities,
  numbered from 1 in that order, and throws only if one of these indices has no document. So
  for a corpus with as many documents as embeddings it returns exactly \<open>min topK corpusSize\<close>
  documents numbered \<open>1, ..., length\<close>. When no similarity is NaN, \<^verbatim>\<open>topIndices\<close> is sorted by
  descending similarity with the lower index first among equal similarities, every index left
  out ranks after every index taken, and the scores of the result are non-increasing.
\<close>

theorem retrieve_top_k:
  "length (top_indices (similarities (emb query) c) topK) = min topK (length (embeddings c))
   \<and> distinct (top_indices (similarities (emb query) c) topK)
   \<and> list_all (\<lambda>i. i < length (embeddings c)) (top_indices (similarities (emb query) c) topK)
   \<and> retrieveDocuments emb query c topK
       = (if list_all (\<lambda>i. i < length (documents c)) (top_indices (similarities (emb query) c) topK)
          then Inr (map (\<lambda>(idx, r). ranked_doc (documents c) (similarities (emb query) c) idx r)
                     (zip (top_indices (similarities (emb query) c) topK)
                          [0..<length (top_indices (similarities (emb query) c) topK)]))
          else Inl TypeError)
   \<and> (length (documents c) = length (embeddings c) \<longrightarrow>
        (\<exists>res. retrieveDocuments emb query c topK = Inr res
               \<and> length res = min topK (length (documents c))
               \<and> map sourceId res = [1..<Suc (length res)]))
   \<and> (list_all (\<lambda>s. s \<noteq> None) (similarities (emb query) c) \<longrightarrow>
        sorted_wrt (better (similarities (emb query) c))
           (top_indices (similarities (emb query) c) topK)
        \<and> list_all (\<lambda>i. list_all (\<lambda>j. j \<in> set (top_indices (similarities (emb query) c) topK)
                                       \<or> better (similarities (emb query) c) i j)
                            [0..<length (embeddings c)])
              (top_indices (similarities (emb query) c) topK)
        \<and> (\<forall>res. retrieveDocuments emb query c topK = Inr res \<longrightarrow>
               sorted_wrt (\<lambda>a b. score_ge (score a) (score b)) res))"
proof -
  let ?scores = "similarities (emb query) c"
  let ?idxs = "top_indices ?scores topK"
  let ?docs = "documents c"
  let ?res = "map (\<lambda>(idx, r). ranked_doc ?docs ?scores idx r) (zip ?idxs [0..<length ?idxs])"
  have n: "length ?scores = length (embeddings c)" by (simp add: similarities_def)
  note sh = top_indices_shape [of ?scores topK]
  have len: "length ?idxs = min topK (length (embeddings c))" using sh(1) n by simp
  have inb: "list_all (\<lambda>i. i < length (embeddings c)) ?idxs"
    using sh(3) n by (auto simp: list_all_iff)
  have run: "retrieveDocuments emb query c topK
       = (if list_all (\<lambda>i. i < length ?docs) ?idxs then Inr ?res else Inl TypeError)"
  proof (cases "\<forall>idx \<in> set ?idxs. idx < length ?docs")
    case True
    then show ?thesis
      using top_documents_ok [OF True, of ?scores 0]
      by (simp add: retrieveDocuments_def Let_def list_all_iff)
  next
    case False
    then show ?thesis
      using top_documents_missing [OF False, of ?scores 0]
      by (simp add: retrieveDocuments_def Let_def list_all_iff)
  qed
  have lr: "length ?res = length ?idxs" by simp
  have ids: "map sourceId ?res = [1..<Suc (length ?res)]"
  proof -
    have "map sourceId ?res = map (Suc \<circ> snd) (zip ?idxs [0..<length ?idxs])"
      by (simp add: ranked_doc_def split_beta comp_def)
    also have "\<dots> = map Suc (map snd (zip ?idxs [0..<length ?idxs]))" by (simp only: map_map)
    also have "\<dots> = map Suc [0..<length ?idxs]" by (simp only: snd_zip_upt)
    also have "\<dots> = [1..<Suc (length ?idxs)]" by (simp only: map_Suc_upt One_nat_def)
    finally show ?thesis by (simp only: lr)
  qed
  have inv: "\<exists>res. retrieveDocuments emb query c topK = Inr res
               \<and> length res = min topK (length ?docs)
               \<and> map sourceId res = [1..<Suc (length res)]"
    if eq: "length ?docs = length (embeddings c)"
  proof -
    have "list_all (\<lambda>i. i < length ?docs) ?idxs" using inb eq by simp
    then have "retrieveDocuments emb query c topK = Inr ?res" using run by simp
    moreover have "length ?res = min topK (length ?docs)" using len eq by simp
    ultimately show ?thesis using ids by blast
  qed
  have ranked: "sorted_wrt (better ?scores) ?idxs
        \<and> list_all (\<lambda>i. list_all (\<lambda>j. j \<in> set ?idxs \<or> better ?scores i j)
                            [0..<length (embeddings c)]) ?idxs
        \<and> (\<forall>res. retrieveDocuments emb query c topK = Inr res \<longrightarrow>
               sorted_wrt (\<lambda>a b. score_ge (score a) (score b)) res)"
    if some: "list_all (\<lambda>s. s \<noteq> None) ?scores"
  proof -
    note p = top_indices_props [OF some, of topK]
    have sel: "list_all (\<lambda>i. list_all (\<lambda>j. j \<in> set ?idxs \<or> better ?scores i j)
                            [0..<length (embeddings c)]) ?idxs"
      unfolding list_all_iff using p(5) [unfolded n] by (metis atLeastLessThan_iff set_upt)
    have sc: "map score ?res = map (\<lambda>i. ?scores ! i) ?idxs"
    proof -
      have "map score ?res = map ((\<lambda>i. ?scores ! i) \<circ> fst) (zip ?idxs [0..<length ?idxs])"
        by (simp add: ranked_doc_def split_beta comp_def)
      also have "\<dots> = map (\<lambda>i. ?scores ! i) (map fst (zip ?idxs [0..<length ?idxs]))"
        by (simp only: map_map)
      also have "\<dots> = map (\<lambda>i. ?scores ! i) ?idxs" by (simp only: fst_zip_upt)
      finally show ?thesis .
    qed
    have "sorted_wrt (\<lambda>i j. score_ge (?scores ! i) (?scores ! j)) ?idxs"
    proof (rule sorted_wrt_mono_rel [OF _ p(2)])
      fix i j assume "i \<in> set ?idxs" and "j \<in> set ?idxs" and b: "better ?scores i j"
      then have "i < length ?scores" and "j < length ?scores" using sh(3) by auto
      then have "?scores ! i \<noteq> None" and "?scores ! j \<noteq> None"
        using some by (simp_all add: list_all_length)
      with b show "score_ge (?scores ! i) (?scores ! j)" by (rule score_ge_better)
    qed
    then have "sorted_wrt score_ge (map (\<lambda>i. ?scores ! i) ?idxs)"
      by (simp add: sorted_wrt_map)
    then have "sorted_wrt score_ge (map score ?res)" by (simp only: sc)
    then have srt: "sorted_wrt (\<lambda>a b. score_ge (score a) (score b)) ?res"
      by (simp only: sorted_wrt_map)
    have "\<forall>res. retrieveDocuments emb query c topK = Inr res \<longrightarrow>
               sorted_wrt (\<lambda>a b. score_ge (score a) (score b)) res"
      using run srt by (auto split: if_splits)
    then show ?thesis using p(2) sel by blast
  qed
  from inv have i5: "length ?docs = length (embeddings c) \<longrightarrow>
        (\<exists>res. retrieveDocuments emb query c topK = Inr res
               \<and> length res = min topK (length ?docs)
               \<and> map sourceId res = [1..<Suc (length res)])"
    by (rule impI)
  from ranked have i6: "list_all (\<lambda>s. s \<noteq> None) ?scores \<longrightarrow>
        sorted_wrt (better ?scores) ?idxs
        \<and> list_all (\<lambda>i. list_all (\<lambda>j. j \<in> set ?idxs \<or> better ?scores i j)
                            [0..<length (embeddings c)]) ?idxs
        \<and> (\<forall>res. retrieveDocuments emb query c topK = Inr res \<longrightarrow>
               sorted_wrt (\<lambda>a b. score_ge (score a) (score b)) res)"
    by (rule impI)
  show ?thesis using len sh(2) inb run i5 i6 by (intro conjI)
qed

theorem retrieve_top_k_witness:
  "length (documents corpus3) = length (embeddings corpus3)
   \<and> list_all (\<lambda>s. s \<noteq> None) (similarities [1, 0] corpus3)
   \<and> retrieveDocuments (\<lambda>q. [1, 0]) ''where did the river flood'' corpus3 2
       = Inr [\<lparr>content = ''b'', metadata = \<lparr>title = None, url = None\<rparr>, score = Some 1, sourceId = 1\<rparr>,
              \<lparr>content = ''c'', metadata = \<lparr>title = None, url = None\<rparr>, score = Some 1, sourceId = 2\<rparr>]
   \<and> top_indices (similarities [1, 0] corpus3) 2 = [1, 2]
   \<and> sorted_wrt (better (similarities [1, 0] corpus3)) [1, 2]
   \<and> sorted_wrt (\<lambda>a b. score_ge (score a) (score b))
        [\<lparr>content = ''b'', metadata = \<lparr>title = None, url = None\<rparr>, score = Some 1, sourceId = 1\<rparr>,
         \<lparr>content = ''c'', metadata = \<lparr>title = None, url = None\<rparr>, score = Some (1 :: real), sourceId = 2 :: nat\<rparr>]"
proof -
  have h1: "length (documents corpus3) = length (embeddings corpus3)"
    by (simp add: corpus3_def docs3_def)
  have sims: "similarities [1, 0] corpus3 = [Some 0, Some 1, Some 1]"
    by (simp add: similarities_def corpus3_def cosineSimilarity_def)
  have h2: "list_all (\<lambda>s. s \<noteq> None) (similarities ((\<lambda>q. [1, 0]) ''where did the river flood'') corpus3)"
    by (simp add: sims)
  have t: "top_indices (similarities [1, 0] corpus3) 2 = [1, 2]"
    by (simp add: sims top_indices_def descending_def)
  have run: "retrieveDocuments (\<lambda>q. [1, 0]) ''where did the river flood'' corpus3 2
       = Inr [\<lparr>content = ''b'', metadata = \<lparr>title = None, url = None\<rparr>, score = Some 1, sourceId = 1\<rparr>,
              \<lparr>content = ''c'', metadata = \<lparr>title = None, url = None\<rparr>, score = Some 1, sourceId = 2\<rparr>]"
    unfolding retrieveDocuments_def Let_def sims
    by (simp add: top_indices_def descending_def corpus3_def docs3_def array_get_def)
  note k = retrieve_top_k [where topK = 2 and emb = "\<lambda>q. [1, 0]" and c = corpus3
                            and query = "''where did the river flood''"]
  from k h2
  have a: "sorted_wrt (better (similarities [1, 0] corpus3)) (top_indices (similarities [1, 0] corpus3) 2)"
    by auto
  from k h2 run
  have b: "sorted_wrt (\<lambda>a b. score_ge (score a) (score b))
        [\<lparr>content = ''b'', metadata = \<lparr>title = None, url = None\<rparr>, score = Some 1, sourceId = 1\<rparr>,
         \<lparr>content = ''c'', metadata = \<lparr>title = None, url = None\<rparr>, score = Some (1 :: real), sourceId = 2 :: nat\<rparr>]"
    by blast
  from a b show ?thesis using h1 h2 run t by simp
qed

text \<open>
  C4, as stated, fails. With the zero vector as first embedding the first similarity is NaN,
  the comparator returns NaN against it and the sort leaves the corpus order: the NaN document
  is ranked before a document of similarity 1, and is the only result for \<^verbatim>\<open>topK\<close> 1. With
  fewer documents than embeddings the result is an exception.
\<close>

theorem nan_ranked_first_counterexample:
  "retrieveDocuments (\<lambda>q. [1, 0]) ''where did the river flood'' corpus_nan 2
     = Inr [\<lparr>content = ''a'', metadata = \<lparr>title = None, url = None\<rparr>, score = None, sourceId = 1\<rparr>,
            \<lparr>content = ''b'', metadata = \<lparr>title = None, url = None\<rparr>, score = Some 1, sourceId = 2\<rparr>]
   \<and> \<not> sorted_wrt (\<lambda>a b. score_ge (score a) (score b))
         [\<lparr>content = ''a'', metadata = \<lparr>title = None, url = None\<rparr>, score = None, sourceId = 1\<rparr>,
          \<lparr>content = ''b'', metadata = \<lparr>title = None, url = None\<rparr>, score = Some 1, sourceId = 2\<rparr>]
   \<and> retrieveDocuments (\<lambda>q. [1, 0]) ''where did the river flood'' corpus_nan 1
     = Inr [\<lparr>content = ''a'', metadata = \<lparr>title = None, url = None\<rparr>, score = None, sourceId = 1\<rparr>]
   \<and> retrieveDocuments (\<lambda>q. [1, 0]) ''where did the river flood'' corpus_short 2 = Inl TypeError"
proof -
  have sims: "similarities [1, 0] corpus_nan = [None, Some 1]"
    by (simp add: similarities_def corpus_nan_def cosineSimilarity_def)
  have sims2: "similarities [1, 0] corpus_short = [Some 0, Some 1]"
    by (simp add: similarities_def corpus_short_def cosineSimilarity_def)
  have r2: "retrieveDocuments (\<lambda>q. [1, 0]) ''where did the river flood'' corpus_nan 2
     = Inr [\<lparr>content = ''a'', metadata = \<lparr>title = None, url = None\<rparr>, score = None, sourceId = 1\<rparr>,
            \<lparr>content = ''b'', metadata = \<lparr>title = None, url = None\<rparr>, score = Some 1, sourceId = 2\<rparr>]"
    unfolding retrieveDocuments_def Let_def sims
    by (simp add: top_indices_def descending_def corpus_nan_def docs3_def array_get_def)
  have r1: "retrieveDocuments (\<lambda>q. [1, 0]) ''where did the river flood'' corpus_nan 1
     = Inr [\<lparr>content = ''a'', metadata = \<lparr>title = None, url = None\<rparr>, score = None, sourceId = 1\<rparr>]"
    unfolding retrieveDocuments_def Let_def sims
    by (simp add: top_indices_def descending_def corpus_nan_def docs3_def array_get_def)
  have r3: "retrieveDocuments (\<lambda>q. [1, 0]) ''where did the river flood'' corpus_short 2 = Inl TypeError"
    unfolding retrieveDocuments_def Let_def sims2
    by (simp add: top_indices_def descending_def corpus_short_def docs3_def array_get_def)
  show ?thesis using r1 r2 r3 by (simp add: score_ge_def)
qed

section \<open>The handlers\<close>

text \<open>
  C6. When the trimmed query is empty, or no event is selected, the handler only writes one of
  its three warnings to the status line: no external call is made, and the embedding model,
  the cached corpus and the displayed result stay as they were.
\<close>

theorem validation_first:
  assumes "trim (userQuery st) = [] \<or> currentEventId st = None \<or> currentEventId st = Some []"
  shows "validation_warning (statusDiv (handleCustomQuery w st))
         \<and> handleCustomQuery w st = st\<lparr>statusDiv := statusDiv (handleCustomQuery w st)\<rparr>
         \<and> calls (handleCustomQuery w st) = calls st
         \<and> embedder (handleCustomQuery w st) = embedder st
         \<and> embeddingsData (handleCustomQuery w st) = embeddingsData st
         \<and> queryResults (handleCustomQuery w st) = queryResults st"
proof -
  from assms have "\<exists>msg. handleCustomQuery w st = st\<lparr>statusDiv := Warning msg\<rparr>
      \<and> validation_warning (Warning msg)"
    by (auto simp: handleCustomQuery_def Let_def validation_warning_def split: option.splits)
  then obtain msg where h: "handleCustomQuery w st = st\<lparr>statusDiv := Warning msg\<rparr>"
    and v: "validation_warning (Warning msg)" by blast
  show ?thesis unfolding h using v by simp
qed

theorem validation_first_witness:
  "(trim (userQuery (initial_page\<lparr>apiKeyInput := ''sk-test'', userQuery := ''  ''\<rparr>)) = []
    \<or> currentEventId (initial_page\<lparr>apiKeyInput := ''sk-test'', userQuery := ''  ''\<rparr>) = None
    \<or> currentEventId (initial_page\<lparr>apiKeyInput := ''sk-test'', userQuery := ''  ''\<rparr>) = Some [])
   \<and> handleCustomQuery world0 (initial_page\<lparr>apiKeyInput := ''sk-test'', userQuery := ''  ''\<rparr>)
       = initial_page\<lparr>apiKeyInput := ''sk-test'', userQuery := ''  '',
                      statusDiv := Warning ''Please enter a question''\<rparr>
   \<and> calls (handleCustomQuery world0 (initial_page\<lparr>apiKeyInput := ''sk-test'', userQuery := ''  ''\<rparr>)) = []"
proof -
  let ?st = "initial_page\<lparr>apiKeyInput := ''sk-test'', userQuery := ''  ''\<rparr>"
  have t: "trim (userQuery ?st) = []" by (simp add: trim_def is_space_def)
  then have h: "trim (userQuery ?st) = [] \<or> currentEventId ?st = None \<or> currentEventId ?st = Some []"
    by simp
  have k: "trim (apiKeyInput ?st) = ''sk-test''" by (simp add: trim_def is_space_def)
  have r: "handleCustomQuery world0 ?st = ?st\<lparr>statusDiv := Warning ''Please enter a question''\<rparr>"
    using t k by (simp add: handleCustomQuery_def Let_def)
  from validation_first [OF h, of world0] have "calls (handleCustomQuery world0 ?st) = calls ?st"
    by blast
  then have "calls (handleCustomQuery world0 ?st) = []" by (simp add: initial_page_def)
  with h r show ?thesis by simp
qed




end
